theory Spec2Isabelle
  imports Main "HOL-Library.Char_ord" "HOL-Library.List_Lexorder" "HOL-Library.Multiset"
begin

section \<open>Python values used by the analyzer\<close>

text \<open>
  A Python \<open>str\<close> is modelled as a \<open>string\<close>, one \<open>char\<close> per code point, so that
  \<open>length\<close> is Python's \<open>len\<close> and the lexicographic order of \<open>HOL-Library.List_Lexorder\<close>
  over \<open>HOL-Library.Char_ord\<close> is Python's string order. HOL's \<open>char\<close> has 256 values, so
  the model's strings are the Python strings over the code points below 256; on these
  \<open>str.lower\<close> maps \<open>A..Z\<close> and the Latin-1 capitals (192..222 except 215) to the code point
  32 above and leaves every other code point alone, and \<open>str.strip\<close> removes the code
  points that \<open>str.isspace\<close> accepts (9..13, 28..32, 133, 160) from both ends.
\<close>

definition lower_char :: "char \<Rightarrow> char" where
  "lower_char c =
     (let n = (of_char c :: nat)
      in if (65 \<le> n \<and> n \<le> 90) \<or> (192 \<le> n \<and> n \<le> 222 \<and> n \<noteq> 215)
         then char_of (n + 32) else c)"

definition lower :: "string \<Rightarrow> string" where
  "lower s = map lower_char s"

definition is_space :: "char \<Rightarrow> bool" where
  "is_space c =
     (let n = (of_char c :: nat)
      in (9 \<le> n \<and> n \<le> 13) \<or> (28 \<le> n \<and> n \<le> 32) \<or> n = 133 \<or> n = 160)"

definition strip :: "string \<Rightarrow> string" where
  "strip s = rev (dropWhile is_space (rev (dropWhile is_space s)))"

text \<open>\<open>noun.startswith(query)\<close>.\<close>

fun startswith :: "string \<Rightarrow> string \<Rightarrow> bool" where
  "startswith s [] = True"
| "startswith [] (q # qs) = False"
| "startswith (c # cs) (q # qs) = (c = q \<and> startswith cs qs)"

text \<open>\<open>" ".join(words)\<close>.\<close>

fun join_space :: "string list \<Rightarrow> string" where
  "join_space [] = []"
| "join_space [w] = w"
| "join_space (w # v # ws) = w @ '' '' @ join_space (v # ws)"

text \<open>
  \<open>xs[:limit]\<close> for an arbitrary Python integer: a negative bound counts from the end.
\<close>

definition slice_to :: "'a list \<Rightarrow> int \<Rightarrow> 'a list" where
  "slice_to xs limit =
     (if 0 \<le> limit then take (nat limit) xs
      else take (length xs - nat (- limit)) xs)"

text \<open>\<open>xs[lo:hi]\<close> for bounds \<open>0 \<le> lo\<close>, \<open>hi \<le> len(xs)\<close>, the only way the analyzer slices.\<close>

definition slice :: "'a list \<Rightarrow> nat \<Rightarrow> nat \<Rightarrow> 'a list" where
  "slice xs lo hi = take (hi - lo) (drop lo xs)"

text \<open>
  A \<open>dict\<close> keeps its keys in insertion order (Python 3.7 and later), and the analyzer
  depends on that order through \<open>Counter.most_common\<close>. A dict is therefore an association
  list with one pair per key, in insertion order: storing under a present key replaces the
  value in place, storing under a new key appends.
\<close>

type_synonym ('k, 'v) pydict = "('k \<times> 'v) list"

fun dict_set :: "'k \<Rightarrow> 'v \<Rightarrow> ('k, 'v) pydict \<Rightarrow> ('k, 'v) pydict" where
  "dict_set k v [] = [(k, v)]"
| "dict_set k v ((k', v') # d) =
     (if k' = k then (k', v) # d else (k', v') # dict_set k v d)"

definition dict_get :: "('k, 'v) pydict \<Rightarrow> 'k \<Rightarrow> 'v option" where
  "dict_get d k = map_of d k"

definition dict_has :: "('k, 'v) pydict \<Rightarrow> 'k \<Rightarrow> bool" where
  "dict_has d k = (k \<in> set (map fst d))"

text \<open>
  A \<open>Counter\<close> is a dict of integers whose missing keys read as 0 (without being stored);
  \<open>c[k] += 1\<close> reads and then stores.
\<close>

type_synonym 'k counter = "('k, int) pydict"

definition counter_get :: "'k counter \<Rightarrow> 'k \<Rightarrow> int" where
  "counter_get c k = (case dict_get c k of None \<Rightarrow> 0 | Some n \<Rightarrow> n)"

definition counter_inc :: "'k \<Rightarrow> 'k counter \<Rightarrow> 'k counter" where
  "counter_inc k c = dict_set k (counter_get c k + 1) c"

text \<open>
  \<open>sorted(xs, key=f, reverse=True)\<close>: CPython reverses the list, sorts it stably in
  ascending order and reverses the result, so equal keys keep their original order.
  \<open>sort_key\<close> is the stable insertion sort of the HOL library.
\<close>

definition sorted_desc :: "('a \<Rightarrow> int) \<Rightarrow> 'a list \<Rightarrow> 'a list" where
  "sorted_desc f xs = rev (sort_key f (rev xs))"

text \<open>\<open>Counter.most_common()\<close> is \<open>sorted(self.items(), key=itemgetter(1), reverse=True)\<close>.\<close>

definition most_common :: "'k counter \<Rightarrow> ('k \<times> int) list" where
  "most_common c = sorted_desc snd c"

text \<open>
  \<open>Counter.most_common(n)\<close> is \<open>heapq.nlargest(n, self.items(), key=itemgetter(1))\<close>, which
  returns what \<open>sorted(..., reverse=True)[:n]\<close> returns for \<open>n \<ge> 0\<close> and the empty list for
  a negative \<open>n\<close>.
\<close>

definition most_common_n :: "int \<Rightarrow> 'k counter \<Rightarrow> ('k \<times> int) list" where
  "most_common_n n c = take (nat n) (most_common c)"

text \<open>The exceptions the analyzer's operations could raise.\<close>

datatype py_error = ZeroDivisionError | KeyError

section \<open>The annotated document\<close>

text \<open>
  A token of Natasha's \<open>Doc\<close>, with the attributes the analyzer reads. \<open>tok_ref\<close> is the
  identity of the token object (what \<open>is\<close> compares); \<open>tok_lemma\<close>, \<open>tok_head_id\<close> and
  \<open>tok_rel\<close> may be \<open>None\<close>; \<open>tok_start\<close> is the character offset.
\<close>

record token =
  tok_ref :: nat
  tok_text :: string
  tok_lemma :: "string option"
  tok_pos :: string
  tok_id :: string
  tok_head_id :: "string option"
  tok_rel :: "string option"
  tok_start :: nat

text \<open>The document: its sentences (each a list of tokens) and the flat list of its tokens.\<close>

record doc =
  sents :: "token list list"
  tokens :: "token list"

text \<open>\<open>(token.lemma or token.text).lower()\<close>: \<open>None\<close> and the empty string are both falsy.\<close>

definition lemma_or_text :: "token \<Rightarrow> string" where
  "lemma_or_text t =
     lower (case tok_lemma t of
              None \<Rightarrow> tok_text t
            | Some l \<Rightarrow> if l = [] then tok_text t else l)"

section \<open>collocations.py\<close>

definition ADJ_LIKE_POS :: "string list" where
  "ADJ_LIKE_POS = [''ADJ'', ''VERB'']"

type_synonym pair = "string \<times> string"

text \<open>
  The two dicts both passes update: \<open>pair_counter\<close> and \<open>pair_examples\<close>.
\<close>

record pair_state =
  pair_counter :: "pair counter"
  pair_examples :: "(pair, string list) pydict"

text \<open>
  \<open>pair_examples\<close> is a \<open>defaultdict(list)\<close>: reading \<open>pair_examples[pair]\<close> stores an empty
  list under a missing key. The block
  \<^verbatim>\<open>if len(pair_examples[pair]) < 3: ... if phrase not in pair_examples[pair]: append\<close>.
\<close>

definition defaultdict_touch :: "'k \<Rightarrow> ('k, 'v list) pydict \<Rightarrow> ('k, 'v list) pydict" where
  "defaultdict_touch k d = (if dict_has d k then d else dict_set k [] d)"

definition add_example :: "pair \<Rightarrow> string \<Rightarrow> (pair, string list) pydict \<Rightarrow> (pair, string list) pydict" where
  "add_example p phrase ex =
     (let ex1 = defaultdict_touch p ex;
          cur = (case dict_get ex1 p of None \<Rightarrow> [] | Some l \<Rightarrow> l)
      in if length cur < 3
         then (if phrase \<notin> set cur then dict_set p (cur @ [phrase]) ex1 else ex1)
         else ex1)"

text \<open>\<open>pair_counter[pair] += 1\<close> followed by the example block.\<close>

definition record_pair :: "pair \<Rightarrow> string \<Rightarrow> pair_state \<Rightarrow> pair_state" where
  "record_pair p phrase st =
     \<lparr>pair_counter = counter_inc p (pair_counter st),
      pair_examples = add_example p phrase (pair_examples st)\<rparr>"

text \<open>
  \<open>{t.id: t for t in sent.tokens}\<close>: a later token replaces an earlier one with the same id.
\<close>

definition id_to_token :: "token list \<Rightarrow> (string \<rightharpoonup> token)" where
  "id_to_token sent = foldl (\<lambda>m t. m(tok_id t \<mapsto> t)) Map.empty sent"

text \<open>\<open>id_to_token.get(token.head_id)\<close>; the ids are strings, so \<open>None\<close> is never a key.\<close>

definition get_head :: "(string \<rightharpoonup> token) \<Rightarrow> token \<Rightarrow> token option" where
  "get_head m t = (case tok_head_id t of None \<Rightarrow> None | Some h \<Rightarrow> m h)"

text \<open>
  The phrase of the dependency pass: head and dependent sorted (stably) by \<open>start\<close>.
\<close>

definition dep_phrase :: "token \<Rightarrow> token \<Rightarrow> string" where
  "dep_phrase head t =
     join_space (map tok_text (sort_key tok_start [head, t]))"

text \<open>The pair the dependency pass records at a token, if any.\<close>

definition dep_pair :: "(string \<rightharpoonup> token) \<Rightarrow> token \<Rightarrow> (pair \<times> string) option" where
  "dep_pair m t =
     (if tok_rel t = Some ''amod'' \<and> tok_pos t \<in> set ADJ_LIKE_POS
      then (case get_head m t of
              None \<Rightarrow> None
            | Some head \<Rightarrow>
                if tok_pos head \<in> {''NOUN'', ''PROPN''}
                then Some ((lemma_or_text head, lemma_or_text t), dep_phrase head t)
                else None)
      else None)"

definition dep_step :: "(string \<rightharpoonup> token) \<Rightarrow> pair_state \<Rightarrow> token \<Rightarrow> pair_state" where
  "dep_step m st t =
     (case dep_pair m t of None \<Rightarrow> st | Some (p, phrase) \<Rightarrow> record_pair p phrase st)"

definition dep_sent :: "pair_state \<Rightarrow> token list \<Rightarrow> pair_state" where
  "dep_sent st sent = foldl (dep_step (id_to_token sent)) st sent"

text \<open>Strategy 1: the loop over \<open>doc.sents\<close>.\<close>

definition dep_pass :: "token list list \<Rightarrow> pair_state \<Rightarrow> pair_state" where
  "dep_pass ss st = foldl dep_sent st ss"

text \<open>
  Strategy 2. The body of the inner loop at positions \<open>i\<close> (a noun) and \<open>j\<close>; both are
  below \<open>len(tokens)\<close> wherever the loops call it.
\<close>

definition window_phrase :: "token list \<Rightarrow> nat \<Rightarrow> nat \<Rightarrow> string" where
  "window_phrase toks i j =
     join_space (map tok_text (slice toks (min i j) (max i j + 1)))"

definition window_inner :: "token list \<Rightarrow> nat \<Rightarrow> pair_state \<Rightarrow> nat \<Rightarrow> pair_state" where
  "window_inner toks i st j =
     (if j = i then st
      else if tok_pos (toks ! j) \<noteq> ''ADJ'' then st
      else let p = (lemma_or_text (toks ! i), lemma_or_text (toks ! j))
           in if \<not> dict_has (pair_counter st) p
              then record_pair p (window_phrase toks i j) st
              else st)"

text \<open>\<open>range(max(0, i - 2), min(len(tokens), i + 3))\<close>; on \<open>nat\<close>, \<open>i - 2\<close> stops at 0.\<close>

definition window_range :: "token list \<Rightarrow> nat \<Rightarrow> nat list" where
  "window_range toks i = [i - 2 ..< min (length toks) (i + 3)]"

definition window_step :: "token list \<Rightarrow> pair_state \<Rightarrow> nat \<Rightarrow> pair_state" where
  "window_step toks st i =
     (if tok_pos (toks ! i) \<notin> {''NOUN'', ''PROPN''} then st
      else foldl (window_inner toks i) st (window_range toks i))"

definition window_pass :: "token list \<Rightarrow> pair_state \<Rightarrow> pair_state" where
  "window_pass toks st = foldl (window_step toks) st [0 ..< length toks]"

text \<open>The output structures.\<close>

record pair_entry =
  pe_noun :: string
  pe_adj :: string
  pe_count :: int
  pe_examples :: "string list"

record adj_item =
  ai_adj :: string
  ai_count :: int
  ai_examples :: "string list"

record noun_item =
  ni_noun :: string
  ni_count :: int

record collocations =
  noun_adj_index :: "(string, adj_item list) pydict"
  adj_noun_index :: "(string, noun_item list) pydict"
  pair_list :: "pair_entry list"
  total_pairs :: int
  unique_pairs :: int

text \<open>\<open>index[k].append(v)\<close> on a \<open>defaultdict(list)\<close>.\<close>

definition dict_append :: "'k \<Rightarrow> 'v \<Rightarrow> ('k, 'v list) pydict \<Rightarrow> ('k, 'v list) pydict" where
  "dict_append k v d =
     dict_set k ((case dict_get d k of None \<Rightarrow> [] | Some l \<Rightarrow> l) @ [v]) d"

text \<open>\<open>pair_examples.get((noun, adj), [])\<close>.\<close>

definition examples_of :: "(pair, string list) pydict \<Rightarrow> pair \<Rightarrow> string list" where
  "examples_of ex p = (case dict_get ex p of None \<Rightarrow> [] | Some l \<Rightarrow> l)"

definition build_pair_list :: "pair_state \<Rightarrow> pair_entry list" where
  "build_pair_list st =
     map (\<lambda>((noun, adj), count).
            \<lparr>pe_noun = noun, pe_adj = adj, pe_count = count,
             pe_examples = examples_of (pair_examples st) (noun, adj)\<rparr>)
         (most_common (pair_counter st))"

definition build_noun_adj_index :: "pair_state \<Rightarrow> (string, adj_item list) pydict" where
  "build_noun_adj_index st =
     map (\<lambda>(noun, items). (noun, sorted_desc ai_count items))
       (foldl (\<lambda>idx ((noun, adj), count).
                 dict_append noun
                   \<lparr>ai_adj = adj, ai_count = count,
                    ai_examples = examples_of (pair_examples st) (noun, adj)\<rparr> idx)
              [] (most_common (pair_counter st)))"

definition build_adj_noun_index :: "pair_state \<Rightarrow> (string, noun_item list) pydict" where
  "build_adj_noun_index st =
     map (\<lambda>(adj, items). (adj, sorted_desc ni_count items))
       (foldl (\<lambda>idx ((noun, adj), count).
                 dict_append adj \<lparr>ni_noun = noun, ni_count = count\<rparr> idx)
              [] (most_common (pair_counter st)))"

definition build_output :: "pair_state \<Rightarrow> collocations" where
  "build_output st =
     \<lparr>noun_adj_index = build_noun_adj_index st,
      adj_noun_index = build_adj_noun_index st,
      pair_list = build_pair_list st,
      total_pairs = sum_list (map snd (pair_counter st)),
      unique_pairs = int (length (pair_counter st))\<rparr>"

definition empty_state :: pair_state where
  "empty_state = \<lparr>pair_counter = [], pair_examples = []\<rparr>"

text \<open>
  \<open>extract_noun_adj_pairs\<close>. The function has no \<open>raise\<close>, and none of its operations can
  fail on a document of the types above (\<open>dict.get\<close>, \<open>Counter\<close> and \<open>defaultdict\<close> reads,
  slices, and \<open>tokens[j]\<close> for \<open>j\<close> of a range inside the list), so every call returns:
  the result is always an \<open>Inr\<close>.
\<close>

definition extract_noun_adj_pairs :: "doc \<Rightarrow> py_error + collocations" where
  "extract_noun_adj_pairs d =
     Inr (build_output (window_pass (tokens d) (dep_pass (sents d) empty_state)))"

text \<open>
  \<open>search_adjectives_for_noun\<close>. The loop over the sorted matches, with the set \<open>seen\<close> and
  the list \<open>result\<close>; the test against \<open>limit\<close> comes after the item has been handled, and
  leaves the loop.
\<close>

fun dedup_loop :: "int \<Rightarrow> adj_item list \<Rightarrow> string set \<Rightarrow> adj_item list \<Rightarrow> adj_item list" where
  "dedup_loop limit [] seen result = result"
| "dedup_loop limit (item # rest) seen result =
     (let (seen', result') =
            (if ai_adj item \<notin> seen then (insert (ai_adj item) seen, result @ [item])
             else (seen, result))
      in if limit \<le> int (length result') then result'
         else dedup_loop limit rest seen' result')"

text \<open>The loop over \<open>noun_adj_index.items()\<close> that extends \<open>matches\<close>.\<close>

definition prefix_matches :: "(string, adj_item list) pydict \<Rightarrow> string \<Rightarrow> adj_item list" where
  "prefix_matches idx q = concat (map snd (filter (\<lambda>(noun, adjs). startswith noun q) idx))"

definition search_adjectives_for_noun ::
    "(string, adj_item list) pydict \<Rightarrow> string \<Rightarrow> int \<Rightarrow> adj_item list" where
  "search_adjectives_for_noun idx query limit =
     (let query_lower = lower (strip query)
      in case dict_get idx query_lower of
           Some adjs \<Rightarrow> slice_to adjs limit
         | None \<Rightarrow> dedup_loop limit (sorted_desc ai_count (prefix_matches idx query_lower)) {} [])"

section \<open>dictionary.py\<close>

definition INCLUDE_POS :: "string set" where
  "INCLUDE_POS =
     {''NOUN'', ''ADJ'', ''VERB'', ''ADV'', ''PROPN'', ''PRON'', ''NUM'', ''DET'', ''INTJ''}"

record dict_entry =
  de_lemma :: string
  de_pos :: string
  de_count :: int
  de_surface_forms :: "string list"
  de_example :: string

type_synonym key = "string \<times> string"

text \<open>
  \<open>_extract_context\<close>. The search for the target compares identities (\<open>t is target_token\<close>)
  and stops at the first hit.
\<close>

fun index_is :: "token list \<Rightarrow> token \<Rightarrow> nat option" where
  "index_is [] target = None"
| "index_is (t # ts) target =
     (if tok_ref t = tok_ref target then Some 0 else map_option Suc (index_is ts target))"

definition extract_context :: "token list \<Rightarrow> token \<Rightarrow> nat \<Rightarrow> string" where
  "extract_context toks target window =
     (case index_is toks target of
        None \<Rightarrow> tok_text target
      | Some idx \<Rightarrow>
          join_space (map tok_text
            (slice toks (idx - window) (min (length toks) (idx + window + 1)))))"

text \<open>
  The three dicts of \<open>build_dictionary\<close>. A Python \<open>set\<close> of strings is the list of its
  members without repetition; only \<open>sorted\<close> reads it, and that does not depend on the
  order of the members.
\<close>

record dict_state =
  entries :: "(key, dict_entry) pydict"
  form_sets :: "(key, string list) pydict"
  freq :: "key counter"

text \<open>\<open>form_sets[key]\<close> of the \<open>defaultdict(set)\<close>, and \<open>form_sets[key].add(form)\<close>.\<close>

definition forms_of :: "(key, string list) pydict \<Rightarrow> key \<Rightarrow> string list" where
  "forms_of fs k = (case dict_get fs k of None \<Rightarrow> [] | Some l \<Rightarrow> l)"

definition forms_add :: "key \<Rightarrow> string \<Rightarrow> (key, string list) pydict \<Rightarrow> (key, string list) pydict" where
  "forms_add k form fs = dict_set k (List.insert form (forms_of fs k)) fs"

text \<open>The body of the loop over \<open>doc.tokens\<close>.\<close>

definition dict_step :: "token list \<Rightarrow> dict_state \<Rightarrow> token \<Rightarrow> dict_state" where
  "dict_step toks st t =
     (if tok_pos t \<notin> INCLUDE_POS then st
      else let l = lemma_or_text t;
               pos = tok_pos t;
               k = (l, pos)
           in \<lparr>entries =
                 (if \<not> dict_has (entries st) k
                  then dict_set k
                         \<lparr>de_lemma = l, de_pos = pos, de_count = 0, de_surface_forms = [],
                          de_example = extract_context toks t 6\<rparr> (entries st)
                  else entries st),
               form_sets = forms_add k (lower (tok_text t)) (form_sets st),
               freq = counter_inc k (freq st)\<rparr>)"

definition empty_dict_state :: dict_state where
  "empty_dict_state = \<lparr>entries = [], form_sets = [], freq = []\<rparr>"

text \<open>The state after the loop has run over the tokens \<open>pre\<close> of the document \<open>toks\<close>.\<close>

definition dict_run :: "token list \<Rightarrow> token list \<Rightarrow> dict_state" where
  "dict_run toks pre = foldl (dict_step toks) empty_dict_state pre"

text \<open>
  The loop over \<open>freq.most_common()\<close>. \<open>entries[key]\<close> raises \<open>KeyError\<close> on a missing key.
  The loop writes the count and the forms into the entry object it appends; \<open>most_common\<close>
  yields each key once, so no entry is written twice.
\<close>

fun merge_loop :: "dict_state \<Rightarrow> (key \<times> int) list \<Rightarrow> dict_entry list \<Rightarrow> py_error + dict_entry list" where
  "merge_loop st [] result = Inr result"
| "merge_loop st ((k, cnt) # rest) result =
     (case dict_get (entries st) k of
        None \<Rightarrow> Inl KeyError
      | Some entry \<Rightarrow>
          merge_loop st rest
            (result @ [entry\<lparr>de_count := cnt,
                              de_surface_forms := sort (forms_of (form_sets st) k)\<rparr>]))"

definition build_dictionary :: "doc \<Rightarrow> py_error + dict_entry list" where
  "build_dictionary d =
     (let st = dict_run (tokens d) (tokens d)
      in merge_loop st (most_common (freq st)) [])"

section \<open>statistics.py\<close>

definition CONTENT_POS :: "string list" where
  "CONTENT_POS = [''NOUN'', ''ADJ'', ''VERB'', ''ADV'', ''PROPN'']"

text \<open>
  Python computes the two ratios in binary floating point. The model takes the three
  float operations the function uses as parameters: \<open>a / b\<close> on two integers (\<open>b\<close> not 0),
  \<open>x * n\<close> and \<open>round(x, n)\<close> on a float and an integer. A ratio is the integer 0 or a float.
\<close>

record 'f float_ops =
  truediv :: "int \<Rightarrow> int \<Rightarrow> 'f"
  mul_int :: "'f \<Rightarrow> int \<Rightarrow> 'f"
  round_nd :: "'f \<Rightarrow> int \<Rightarrow> 'f"

datatype 'f pynum = PyInt int | PyFloat 'f

text \<open>\<open>a / b\<close> raises \<open>ZeroDivisionError\<close> when \<open>b\<close> is 0.\<close>

definition py_truediv :: "'f float_ops \<Rightarrow> int \<Rightarrow> int \<Rightarrow> py_error + 'f" where
  "py_truediv ops a b = (if b = 0 then Inl ZeroDivisionError else Inr (truediv ops a b))"

record stats_state =
  pos_counter :: "string counter"
  lemma_counters :: "(string, string counter) pydict"
  all_lemmas :: "string counter"
  total_chars :: int
  word_count :: int

text \<open>\<open>{pos: Counter() for pos in CONTENT_POS}\<close> and the other initial values.\<close>

definition empty_stats_state :: stats_state where
  "empty_stats_state =
     \<lparr>pos_counter = [], lemma_counters = map (\<lambda>pos. (pos, [])) CONTENT_POS,
      all_lemmas = [], total_chars = 0, word_count = 0\<rparr>"

text \<open>
  The body of the loop over \<open>doc.tokens\<close>; \<open>lemma_counters[pos]\<close> raises \<open>KeyError\<close> on a
  missing key.
\<close>

definition stats_step :: "stats_state \<Rightarrow> token \<Rightarrow> py_error + stats_state" where
  "stats_step st t =
     (let pos = tok_pos t;
          l = lemma_or_text t;
          st1 = st\<lparr>pos_counter := counter_inc pos (pos_counter st)\<rparr>
      in if pos \<in> {''PUNCT'', ''SYM''} then Inr st1
         else let st2 = st1\<lparr>word_count := word_count st1 + 1,
                             total_chars := total_chars st1 + int (length (tok_text t)),
                             all_lemmas := counter_inc l (all_lemmas st1)\<rparr>
              in if pos \<in> set CONTENT_POS
                 then (case dict_get (lemma_counters st2) pos of
                         None \<Rightarrow> Inl KeyError
                       | Some c \<Rightarrow>
                           Inr (st2\<lparr>lemma_counters :=
                                      dict_set pos (counter_inc l c) (lemma_counters st2)\<rparr>))
                 else Inr st2)"

fun stats_loop :: "stats_state \<Rightarrow> token list \<Rightarrow> py_error + stats_state" where
  "stats_loop st [] = Inr st"
| "stats_loop st (t # ts) =
     (case stats_step st t of Inl e \<Rightarrow> Inl e | Inr st' \<Rightarrow> stats_loop st' ts)"

record lemma_count =
  lc_lemma :: string
  lc_count :: int

text \<open>\<open>_top(pos)\<close>.\<close>

definition top :: "stats_state \<Rightarrow> int \<Rightarrow> string \<Rightarrow> py_error + lemma_count list" where
  "top st top_n pos =
     (case dict_get (lemma_counters st) pos of
        None \<Rightarrow> Inl KeyError
      | Some c \<Rightarrow>
          Inr (map (\<lambda>(l, cnt). \<lparr>lc_lemma = l, lc_count = cnt\<rparr>) (most_common_n top_n c)))"

text \<open>
  The report. The static table \<open>pos_labels_ru\<close> of Russian labels is a constant of the module
  and is left out.
\<close>

record 'f statistics =
  total_tokens :: int
  total_words :: int
  unique_lemmas :: int
  vocabulary_richness :: "'f pynum"
  avg_word_length :: "'f pynum"
  pos_distribution :: "(string, int) pydict"
  top_nouns :: "lemma_count list"
  top_adj :: "lemma_count list"
  top_verbs :: "lemma_count list"
  top_adv :: "lemma_count list"
  top_propn :: "lemma_count list"

text \<open>Sequencing of steps that may raise.\<close>

definition py_bind :: "py_error + 'a \<Rightarrow> ('a \<Rightarrow> py_error + 'b) \<Rightarrow> py_error + 'b" where
  "py_bind m f = (case m of Inl e \<Rightarrow> Inl e | Inr x \<Rightarrow> f x)"

text \<open>
  \<open>round(unique / word_count * 100, 2) if word_count else 0\<close> and
  \<open>round(total_chars / word_count, 2) if word_count else 0\<close>.
\<close>

definition richness_of :: "'f float_ops \<Rightarrow> int \<Rightarrow> int \<Rightarrow> py_error + 'f pynum" where
  "richness_of ops unique wc =
     (if wc \<noteq> 0
      then py_bind (py_truediv ops unique wc)
             (\<lambda>q. Inr (PyFloat (round_nd ops (mul_int ops q 100) 2)))
      else Inr (PyInt 0))"

definition avg_len_of :: "'f float_ops \<Rightarrow> int \<Rightarrow> int \<Rightarrow> py_error + 'f pynum" where
  "avg_len_of ops chars wc =
     (if wc \<noteq> 0
      then py_bind (py_truediv ops chars wc) (\<lambda>q. Inr (PyFloat (round_nd ops q 2)))
      else Inr (PyInt 0))"

definition compute_statistics :: "'f float_ops \<Rightarrow> doc \<Rightarrow> int \<Rightarrow> py_error + 'f statistics" where
  "compute_statistics ops d top_n =
     py_bind (stats_loop empty_stats_state (tokens d)) (\<lambda>st.
     let unique = int (length (all_lemmas st)) in
     py_bind (richness_of ops unique (word_count st)) (\<lambda>richness.
     py_bind (avg_len_of ops (total_chars st) (word_count st)) (\<lambda>avg_len.
     py_bind (top st top_n ''NOUN'') (\<lambda>nouns.
     py_bind (top st top_n ''ADJ'') (\<lambda>adjs.
     py_bind (top st top_n ''VERB'') (\<lambda>verbs.
     py_bind (top st top_n ''ADV'') (\<lambda>advs.
     py_bind (top st top_n ''PROPN'') (\<lambda>propns.
     Inr \<lparr>total_tokens = int (length (tokens d)),
          total_words = word_count st,
          unique_lemmas = unique,
          vocabulary_richness = richness,
          avg_word_length = avg_len,
          pos_distribution = most_common (pos_counter st),
          top_nouns = nouns, top_adj = adjs, top_verbs = verbs,
          top_adv = advs, top_propn = propns\<rparr>))))))))"

section \<open>What the two passes of the extractor record\<close>

text \<open>
  The recordings of the dependency pass, one list element per recording: for every sentence,
  in order, the pairs of the tokens at which \<open>dep_pair\<close> yields one.
\<close>

definition sent_pairs :: "token list \<Rightarrow> pair list" where
  "sent_pairs sent = map fst (List.map_filter (dep_pair (id_to_token sent)) sent)"

definition syntactic_pairs :: "doc \<Rightarrow> pair list" where
  "syntactic_pairs d = concat (map sent_pairs (sents d))"

text \<open>
  The window co-occurrences of the flat token list, one list element per co-occurrence:
  a noun at position \<open>i\<close>, an \<open>ADJ\<close> at another position \<open>j\<close> of the window around \<open>i\<close>.
\<close>

definition window_pairs_at :: "token list \<Rightarrow> nat \<Rightarrow> pair list" where
  "window_pairs_at toks i =
     (if tok_pos (toks ! i) \<in> {''NOUN'', ''PROPN''}
      then map (\<lambda>j. (lemma_or_text (toks ! i), lemma_or_text (toks ! j)))
             (filter (\<lambda>j. j \<noteq> i \<and> tok_pos (toks ! j) = ''ADJ'') (window_range toks i))
      else [])"

definition window_pairs :: "token list \<Rightarrow> pair list" where
  "window_pairs toks = concat (map (window_pairs_at toks) [0 ..< length toks])"

text \<open>The counts of the entries of \<open>pair_list\<close> whose key is the pair \<open>p\<close>.\<close>

definition entry_counts :: "collocations \<Rightarrow> pair \<Rightarrow> int list" where
  "entry_counts r p = map pe_count (filter (\<lambda>e. (pe_noun e, pe_adj e) = p) (pair_list r))"

text \<open>
  The state of the window pass after the first \<open>n\<close> rounds of its outer loop;
  \<open>window_pass toks st\<close> is \<open>window_prefix toks st (length toks)\<close>.
\<close>

definition window_prefix :: "token list \<Rightarrow> pair_state \<Rightarrow> nat \<Rightarrow> pair_state" where
  "window_prefix toks st n = foldl (window_step toks) st [0 ..< n]"

text \<open>
  The relation the window pass keeps between the counter \<open>c\<close> it started from and the
  counter \<open>c'\<close> it has reached: the keys of \<open>c\<close> keep their counts, a key \<open>c\<close> does not have
  is absent or has the count 1.
\<close>

definition frozen_from :: "pair counter \<Rightarrow> pair counter \<Rightarrow> bool" where
  "frozen_from c c' \<longleftrightarrow>
     (\<forall>p. (dict_has c p \<longrightarrow> dict_get c' p = dict_get c p) \<and>
          (\<not> dict_has c p \<longrightarrow> dict_get c' p = None \<or> dict_get c' p = Some 1))"

text \<open>A sentence in which two tokens at different positions carry the same id.\<close>

definition id_collision :: "token list \<Rightarrow> bool" where
  "id_collision sent = (\<not> distinct (map tok_id sent))"

text \<open>
  A token whose head reference resolves to no token of the sentence: it has none, or its
  \<open>head_id\<close> is no token's id.
\<close>

definition head_unresolved :: "token list \<Rightarrow> token \<Rightarrow> bool" where
  "head_unresolved sent t =
     (case tok_head_id t of None \<Rightarrow> True | Some h \<Rightarrow> h \<notin> set (map tok_id sent))"

text \<open>Documents for the concrete runs below.\<close>

definition mk_token :: "nat \<Rightarrow> string \<Rightarrow> string \<Rightarrow> string \<Rightarrow> string option \<Rightarrow> string option \<Rightarrow> token" where
  "mk_token n txt p i h r =
     \<lparr>tok_ref = n, tok_text = txt, tok_lemma = Some txt, tok_pos = p, tok_id = i,
      tok_head_id = h, tok_rel = r, tok_start = 10 * n\<rparr>"

text \<open>
  Three sentences, "Old house", "old house" and "house is old": the adjective is an \<open>amod\<close>
  of the noun in the first two and carries no relation to it in the third.
\<close>

definition doc_houses :: doc where
  "doc_houses =
     (let s1 = [mk_token 0 ''Old'' ''ADJ'' ''1_1'' (Some ''1_2'') (Some ''amod''),
                mk_token 1 ''house'' ''NOUN'' ''1_2'' (Some ''1_0'') (Some ''root'')];
          s2 = [mk_token 2 ''old'' ''ADJ'' ''2_1'' (Some ''2_2'') (Some ''amod''),
                mk_token 3 ''house'' ''NOUN'' ''2_2'' (Some ''2_0'') (Some ''root'')];
          s3 = [mk_token 4 ''house'' ''NOUN'' ''3_1'' (Some ''3_3'') (Some ''nsubj''),
                mk_token 5 ''is'' ''AUX'' ''3_2'' (Some ''3_3'') (Some ''cop''),
                mk_token 6 ''old'' ''ADJ'' ''3_3'' (Some ''3_0'') (Some ''root'')]
      in \<lparr>sents = [s1, s2, s3], tokens = s1 @ s2 @ s3\<rparr>)"

text \<open>
  One sentence, "red big red car", in which the parser found no relation: the pair
  (car, red) co-occurs twice in the window of the noun.
\<close>

definition doc_car :: doc where
  "doc_car =
     (let s = [mk_token 0 ''red'' ''ADJ'' ''1_1'' None None,
               mk_token 1 ''big'' ''ADJ'' ''1_2'' None None,
               mk_token 2 ''car'' ''NOUN'' ''1_3'' None None,
               mk_token 3 ''red'' ''ADJ'' ''1_4'' None None]
      in \<lparr>sents = [s], tokens = s\<rparr>)"

text \<open>
  One sentence in which the tokens "house" and "garden" both carry the id \<open>1_2\<close>, the
  head of the \<open>amod\<close> "old"; and one in which the head id \<open>1_9\<close> of "old" is no token's id.
\<close>

definition doc_collision :: doc where
  "doc_collision =
     (let s = [mk_token 0 ''old'' ''ADJ'' ''1_1'' (Some ''1_2'') (Some ''amod''),
               mk_token 1 ''house'' ''NOUN'' ''1_2'' None None,
               mk_token 2 ''and'' ''CCONJ'' ''1_3'' None None,
               mk_token 3 ''in'' ''ADP'' ''1_4'' None None,
               mk_token 4 ''garden'' ''NOUN'' ''1_2'' None None]
      in \<lparr>sents = [s], tokens = s\<rparr>)"

definition doc_dangling :: doc where
  "doc_dangling =
     (let s = [mk_token 0 ''old'' ''VERB'' ''1_1'' (Some ''1_9'') (Some ''amod''),
               mk_token 1 ''house'' ''NOUN'' ''1_2'' None None]
      in \<lparr>sents = [s], tokens = s\<rparr>)"

section \<open>What the dictionary builder counts\<close>

text \<open>The key of a token, and the tokens of a list that the builder files under a key.\<close>

definition token_key :: "token \<Rightarrow> key" where
  "token_key t = (lemma_or_text t, tok_pos t)"

definition key_match :: "key \<Rightarrow> token \<Rightarrow> bool" where
  "key_match k t = (tok_pos t \<in> INCLUDE_POS \<and> token_key t = k)"

definition key_tokens :: "token list \<Rightarrow> key \<Rightarrow> token list" where
  "key_tokens toks k = filter (key_match k) toks"

definition entry_key :: "dict_entry \<Rightarrow> key" where
  "entry_key e = (de_lemma e, de_pos e)"

text \<open>
  The position in the flat token list at which a key is first seen (the length of the
  list if it never is).
\<close>

definition first_seen :: "token list \<Rightarrow> key \<Rightarrow> nat" where
  "first_seen toks k = length (takeWhile (\<lambda>t. \<not> key_match k t) toks)"

text \<open>
  The surface texts of the tokens at the positions \<open>i - 6, \<dots>, i + 6\<close> that exist, joined
  by single spaces.
\<close>

definition context_window :: "token list \<Rightarrow> nat \<Rightarrow> string" where
  "context_window toks i =
     join_space (map (\<lambda>j. tok_text (toks ! j)) [i - 6 ..< min (length toks) (i + 7)])"

text \<open>
  The order of the result: by count, larger first, and among equal counts by the position
  at which the key is first seen.
\<close>

definition ranked_before :: "token list \<Rightarrow> dict_entry \<Rightarrow> dict_entry \<Rightarrow> bool" where
  "ranked_before toks a b =
     (de_count b < de_count a \<or>
      (de_count a = de_count b \<and>
       first_seen toks (entry_key a) < first_seen toks (entry_key b)))"

text \<open>
  Two positions of the flat list that hold the same object hold the same token: an object
  has one value for each attribute.
\<close>

definition refs_consistent :: "token list \<Rightarrow> bool" where
  "refs_consistent toks =
     (\<forall>i < length toks. \<forall>j < length toks.
        tok_ref (toks ! i) = tok_ref (toks ! j) \<longrightarrow> toks ! i = toks ! j)"

text \<open>
  The entry the loop stores when it first meets the key \<open>k\<close>, at the token \<open>t\<close>; and the
  entry of the result for an item \<open>(k, c)\<close> of \<open>freq.most_common()\<close>.
\<close>

definition fresh_entry :: "token list \<Rightarrow> key \<Rightarrow> token \<Rightarrow> dict_entry" where
  "fresh_entry toks k t =
     \<lparr>de_lemma = fst k, de_pos = snd k, de_count = 0, de_surface_forms = [],
      de_example = extract_context toks t 6\<rparr>"

definition final_entry :: "token list \<Rightarrow> key \<times> int \<Rightarrow> dict_entry" where
  "final_entry toks kc =
     \<lparr>de_lemma = fst (fst kc), de_pos = snd (fst kc), de_count = snd kc,
      de_surface_forms = sort (forms_of (form_sets (dict_run toks toks)) (fst kc)),
      de_example = extract_context toks (toks ! first_seen toks (fst kc)) 6\<rparr>"

text \<open>
  A document of nine tokens, "saw Cats , cat ran cat and Dog .": the key (cat, NOUN) occurs
  three times with two surface forms, the other keys once.
\<close>

definition doc_words :: doc where
  "doc_words =
     (let w = (\<lambda>n txt l p. \<lparr>tok_ref = n, tok_text = txt, tok_lemma = l, tok_pos = p,
                 tok_id = [], tok_head_id = None, tok_rel = None, tok_start = 5 * n\<rparr>);
          s = [w 0 ''saw'' (Some ''see'') ''VERB'', w 1 ''Cats'' (Some ''cat'') ''NOUN'',
               w 2 '','' None ''PUNCT'', w 3 ''cat'' (Some ''cat'') ''NOUN'',
               w 4 ''ran'' (Some ''run'') ''VERB'', w 5 ''cat'' (Some []) ''NOUN'',
               w 6 ''and'' (Some ''and'') ''CCONJ'', w 7 ''Dog'' None ''NOUN'',
               w 8 ''.'' None ''PUNCT'']
      in \<lparr>sents = [s], tokens = s\<rparr>)"

section \<open>What the statistics count\<close>

text \<open>The words of a token list: the tokens whose POS is neither \<open>PUNCT\<close> nor \<open>SYM\<close>.\<close>

definition is_word :: "token \<Rightarrow> bool" where
  "is_word t = (tok_pos t \<notin> {''PUNCT'', ''SYM''})"

definition words_of :: "token list \<Rightarrow> token list" where
  "words_of toks = filter is_word toks"

text \<open>The sum of the lengths of the surface texts of the words.\<close>

definition word_chars :: "token list \<Rightarrow> int" where
  "word_chars toks = sum_list (map (\<lambda>t. int (length (tok_text t))) (words_of toks))"

text \<open>The number of distinct lowercased lemmas (or texts, where the lemma is missing) of the words.\<close>

definition distinct_lemmas :: "token list \<Rightarrow> int" where
  "distinct_lemmas toks = int (card (set (map lemma_or_text (words_of toks))))"

text \<open>
  Float operations that build the term of the computation instead of a number, for the
  concrete runs: \<open>Quot a b\<close> stands for \<open>a / b\<close>, \<open>Times x n\<close> for \<open>x * n\<close> and
  \<open>Rounded x n\<close> for \<open>round(x, n)\<close>.
\<close>

datatype float_term = Quot int int | Times float_term int | Rounded float_term int

definition term_ops :: "float_term float_ops" where
  "term_ops = \<lparr>truediv = Quot, mul_int = Times, round_nd = Rounded\<rparr>"

text \<open>A document of two punctuation tokens.\<close>

definition doc_punct :: doc where
  "doc_punct =
     (let w = (\<lambda>n txt p. \<lparr>tok_ref = n, tok_text = txt, tok_lemma = None, tok_pos = p,
                 tok_id = [], tok_head_id = None, tok_rel = None, tok_start = n\<rparr>);
          s = [w 0 ''.'' ''PUNCT'', w 1 ''+'' ''SYM'']
      in \<lparr>sents = [s], tokens = s\<rparr>)"

section \<open>What the search returns\<close>

text \<open>
  The entries merged from every noun key that has \<open>q\<close> as a prefix, in the order of the
  index.
\<close>

definition merged_entries :: "(string, adj_item list) pydict \<Rightarrow> string \<Rightarrow> adj_item list" where
  "merged_entries idx q =
     concat (map snd (filter (\<lambda>(noun, adjs). take (length q) noun = q) idx))"

text \<open>
  \<open>r\<close> is a deduplicated ranking of the entries \<open>xs\<close>: its items are items of \<open>xs\<close>, every
  adjective of \<open>xs\<close> appears in it exactly once, with a count that no item of \<open>xs\<close> with the
  same adjective exceeds, and the counts never increase along \<open>r\<close>.
\<close>

definition ranked_dedup :: "adj_item list \<Rightarrow> adj_item list \<Rightarrow> bool" where
  "ranked_dedup xs r \<longleftrightarrow>
     set r \<subseteq> set xs \<and>
     ai_adj ` set r = ai_adj ` set xs \<and>
     distinct (map ai_adj r) \<and>
     (\<forall>x \<in> set r. \<forall>y \<in> set xs. ai_adj y = ai_adj x \<longrightarrow> ai_count y \<le> ai_count x) \<and>
     sorted_wrt (\<lambda>a b. ai_count b \<le> ai_count a) r"

text \<open>The items of a list that are the first with their adjective, those in \<open>seen\<close> apart.\<close>

fun first_per_adj :: "string set \<Rightarrow> adj_item list \<Rightarrow> adj_item list" where
  "first_per_adj seen [] = []"
| "first_per_adj seen (x # xs) =
     (if ai_adj x \<in> seen then first_per_adj seen xs
      else x # first_per_adj (insert (ai_adj x) seen) xs)"



section \<open>Properties of the containers\<close>

lemma dict_set_keys:
  "map fst (dict_set k v d) = (if k \<in> set (map fst d) then map fst d else map fst d @ [k])"
  by (induction d) (auto simp: rev_image_eqI)

lemma dict_set_distinct: "distinct (map fst d) \<Longrightarrow> distinct (map fst (dict_set k v d))"
  by (simp add: dict_set_keys)

lemma dict_get_set: "dict_get (dict_set k v d) k' = (if k' = k then Some v else dict_get d k')"
  by (induction d) (auto simp: dict_get_def)

lemma dict_has_get: "dict_has d k \<longleftrightarrow> dict_get d k \<noteq> None"
  by (simp add: dict_has_def dict_get_def map_of_eq_None_iff)

lemma dict_has_set: "dict_has (dict_set k v d) k' \<longleftrightarrow> k' = k \<or> dict_has d k'"
  by (simp add: dict_has_get dict_get_set)

lemma counter_get_inc:
  "counter_get (counter_inc k c) k' = (if k' = k then counter_get c k + 1 else counter_get c k')"
  by (simp add: counter_get_def counter_inc_def dict_get_set)

lemma dict_has_inc: "dict_has (counter_inc k c) k' \<longleftrightarrow> k' = k \<or> dict_has c k'"
  by (simp add: counter_inc_def dict_has_set)

lemma counter_inc_distinct: "distinct (map fst c) \<Longrightarrow> distinct (map fst (counter_inc k c))"
  by (simp add: counter_inc_def dict_set_distinct)

lemma sum_dict_set:
  "sum_list (map snd (dict_set k v d)) = sum_list (map snd d) - counter_get d k + (v::int)"
  by (induction d) (auto simp: counter_get_def dict_get_def)

lemma sum_counter_inc: "sum_list (map snd (counter_inc k c)) = sum_list (map snd c) + 1"
  by (simp add: counter_inc_def sum_dict_set)

lemma foldl_invariant:
  "P s \<Longrightarrow> (\<And>s x. P s \<Longrightarrow> x \<in> set xs \<Longrightarrow> P (f s x)) \<Longrightarrow> P (foldl f s xs)"
  by (induction xs arbitrary: s) auto

lemma mset_sorted_desc: "mset (sorted_desc f xs) = mset xs"
  by (simp add: sorted_desc_def)

lemma set_sorted_desc: "set (sorted_desc f xs) = set xs"
  by (simp add: sorted_desc_def)

lemma length_sorted_desc: "length (sorted_desc f xs) = length xs"
  by (simp add: sorted_desc_def)

lemma sum_list_sorted_desc: "sum_list (map g (sorted_desc f xs)) = sum_list (map (g :: 'a \<Rightarrow> int) xs)"
proof -
  have "mset (map g (sorted_desc f xs)) = mset (map g xs)"
    by (simp add: mset_sorted_desc)
  then show ?thesis
    by (metis sum_mset_sum_list)
qed

lemma filter_sorted_desc:
  "filter (\<lambda>x. f x = k) (sorted_desc f xs) = filter (\<lambda>x. f x = k) xs"
  by (simp add: sorted_desc_def rev_filter sort_key_stable flip: rev_filter)

lemma distinct_sorted_desc: "distinct (map g (sorted_desc f xs)) \<longleftrightarrow> distinct (map g xs)"
proof -
  have "mset (map g (sorted_desc f xs)) = mset (map g xs)"
    by (simp add: mset_sorted_desc)
  then show ?thesis
    by (metis distinct_count_atmost_1 set_mset_mset)
qed

section \<open>The collocation extractor\<close>

lemma pair_counter_empty: "pair_counter empty_state = []"
  by (simp add: empty_state_def)

lemma counter_get_Nil: "counter_get [] k = 0"
  by (simp add: counter_get_def dict_get_def)

lemma dict_has_Nil: "\<not> dict_has [] k"
  by (simp add: dict_has_def)

lemma pair_counter_record: "pair_counter (record_pair p ph st) = counter_inc p (pair_counter st)"
  by (simp add: record_pair_def)

lemma dep_step_None: "dep_pair m t = None \<Longrightarrow> dep_step m st t = st"
  by (simp add: dep_step_def)

lemma dep_step_Some: "dep_pair m t = Some (p, ph) \<Longrightarrow> dep_step m st t = record_pair p ph st"
  by (simp add: dep_step_def)

lemma dep_fold_count:
  "counter_get (pair_counter (foldl (dep_step m) st ts)) p =
   counter_get (pair_counter st) p + int (count_list (map fst (List.map_filter (dep_pair m) ts)) p)"
proof (induction ts arbitrary: st)
  case Nil
  show ?case by (simp add: List.map_filter_simps)
next
  case (Cons t ts)
  show ?case
  proof (cases "dep_pair m t")
    case None
    then show ?thesis
      by (simp add: Cons.IH dep_step_None List.map_filter_simps)
  next
    case (Some a)
    then obtain q ph where "dep_pair m t = Some (q, ph)" by (cases a) auto
    then show ?thesis
      by (simp add: Cons.IH dep_step_Some List.map_filter_simps pair_counter_record counter_get_inc)
  qed
qed

lemma dep_pass_count:
  "counter_get (pair_counter (dep_pass ss st)) p =
   counter_get (pair_counter st) p + int (count_list (concat (map sent_pairs ss)) p)"
  unfolding dep_pass_def
  by (induction ss arbitrary: st) (simp_all add: dep_sent_def dep_fold_count sent_pairs_def)

lemma dep_fold_has:
  "dict_has (pair_counter (foldl (dep_step m) st ts)) p \<longleftrightarrow>
   dict_has (pair_counter st) p \<or> p \<in> set (map fst (List.map_filter (dep_pair m) ts))"
proof (induction ts arbitrary: st)
  case Nil
  show ?case by (simp add: List.map_filter_simps)
next
  case (Cons t ts)
  show ?case
  proof (cases "dep_pair m t")
    case None
    then show ?thesis
      by (simp add: Cons.IH dep_step_None List.map_filter_simps)
  next
    case (Some a)
    then obtain q ph where "dep_pair m t = Some (q, ph)" by (cases a) auto
    then show ?thesis
      by (auto simp: Cons.IH dep_step_Some List.map_filter_simps pair_counter_record dict_has_inc)
  qed
qed

lemma dep_pass_has:
  "dict_has (pair_counter (dep_pass ss st)) p \<longleftrightarrow>
   dict_has (pair_counter st) p \<or> p \<in> set (concat (map sent_pairs ss))"
  unfolding dep_pass_def
  by (induction ss arbitrary: st) (auto simp: dep_sent_def dep_fold_has sent_pairs_def)

lemma dep_step_distinct:
  "distinct (map fst (pair_counter st)) \<Longrightarrow> distinct (map fst (pair_counter (dep_step m st t)))"
  by (auto simp: dep_step_def pair_counter_record counter_inc_distinct split: option.splits)

lemma dep_pass_distinct:
  assumes "distinct (map fst (pair_counter st))"
  shows "distinct (map fst (pair_counter (dep_pass ss st)))"
  unfolding dep_pass_def dep_sent_def
  by (rule foldl_invariant [where P = "\<lambda>s. distinct (map fst (pair_counter s))"],
      rule assms, rule foldl_invariant, assumption, rule dep_step_distinct)

lemma frozen_refl: "frozen_from c c"
  by (auto simp: frozen_from_def dict_has_get)

lemma dict_get_inc_new:
  "\<not> dict_has c p \<Longrightarrow> dict_get (counter_inc p c) q = (if q = p then Some 1 else dict_get c q)"
  by (simp add: counter_inc_def dict_get_set counter_get_def dict_has_get)

lemma window_inner_frozen:
  assumes "frozen_from c (pair_counter st)"
  shows "frozen_from c (pair_counter (window_inner toks i st j))"
proof -
  have new: "frozen_from c (counter_inc p (pair_counter st))" if "\<not> dict_has (pair_counter st) p" for p
    using assms that unfolding frozen_from_def
    by (metis dict_get_inc_new dict_has_get)
  show ?thesis
    using assms new by (simp add: window_inner_def Let_def pair_counter_record)
qed

lemma window_step_frozen:
  assumes "frozen_from c (pair_counter st)"
  shows "frozen_from c (pair_counter (window_step toks st i))"
proof (cases "tok_pos (toks ! i) \<notin> {''NOUN'', ''PROPN''}")
  case True
  then show ?thesis using assms by (simp add: window_step_def)
next
  case False
  have "frozen_from c (pair_counter (foldl (window_inner toks i) st (window_range toks i)))"
    by (rule foldl_invariant [where P = "\<lambda>s. frozen_from c (pair_counter s)"])
       (auto intro: assms window_inner_frozen)
  then show ?thesis using False by (simp add: window_step_def)
qed

lemma window_fold_frozen:
  assumes "frozen_from c (pair_counter st)"
  shows "frozen_from c (pair_counter (foldl (window_step toks) st is))"
  by (rule foldl_invariant [where P = "\<lambda>s. frozen_from c (pair_counter s)"])
     (auto intro: assms window_step_frozen)

lemma window_pass_frozen: "frozen_from (pair_counter st) (pair_counter (window_pass toks st))"
  unfolding window_pass_def by (rule window_fold_frozen) (rule frozen_refl)

lemma window_inner_distinct:
  "distinct (map fst (pair_counter st)) \<Longrightarrow>
   distinct (map fst (pair_counter (window_inner toks i st j)))"
  by (simp add: window_inner_def Let_def pair_counter_record counter_inc_distinct)

lemma window_step_distinct:
  assumes "distinct (map fst (pair_counter st))"
  shows "distinct (map fst (pair_counter (window_step toks st i)))"
proof -
  have "distinct (map fst (pair_counter (foldl (window_inner toks i) st (window_range toks i))))"
    by (rule foldl_invariant [where P = "\<lambda>s. distinct (map fst (pair_counter s))"])
       (auto intro: assms window_inner_distinct)
  then show ?thesis using assms by (simp add: window_step_def)
qed

lemma window_pass_distinct:
  assumes "distinct (map fst (pair_counter st))"
  shows "distinct (map fst (pair_counter (window_pass toks st)))"
  unfolding window_pass_def
  by (rule foldl_invariant [where P = "\<lambda>s. distinct (map fst (pair_counter s))"])
     (auto intro: assms window_step_distinct)

lemma final_distinct:
  "distinct (map fst (pair_counter (window_pass toks (dep_pass ss empty_state))))"
  by (rule window_pass_distinct, rule dep_pass_distinct) (simp add: pair_counter_empty)

lemma filter_key_distinct:
  "distinct (map fst xs) \<Longrightarrow>
   map snd (filter (\<lambda>x. fst x = k) xs) = (case map_of xs k of None \<Rightarrow> [] | Some v \<Rightarrow> [v])"
proof (induction xs)
  case Nil
  show ?case by simp
next
  case (Cons x xs)
  then show ?case
    by (cases x) (auto simp: map_of_eq_None_iff rev_image_eqI filter_empty_conv split: option.splits)
qed

lemma map_of_sorted_desc:
  assumes "distinct (map fst xs)"
  shows "map_of (sorted_desc f xs) = map_of xs"
proof -
  have "distinct (map fst (sorted_desc f xs))"
    using assms by (simp add: distinct_sorted_desc)
  then show ?thesis
    using assms by (simp add: map_of_inject_set set_sorted_desc)
qed

lemma entry_counts_build:
  assumes "distinct (map fst (pair_counter st))"
  shows "entry_counts (build_output st) p =
         (case dict_get (pair_counter st) p of None \<Rightarrow> [] | Some n \<Rightarrow> [n])"
proof -
  let ?mc = "most_common (pair_counter st)"
  have d: "distinct (map fst ?mc)"
    using assms by (simp add: most_common_def distinct_sorted_desc)
  have "entry_counts (build_output st) p = map snd (filter (\<lambda>x. fst x = p) ?mc)"
    by (simp add: entry_counts_def build_output_def build_pair_list_def filter_map o_def
        case_prod_unfold)
  also have "\<dots> = (case map_of ?mc p of None \<Rightarrow> [] | Some v \<Rightarrow> [v])"
    by (rule filter_key_distinct [OF d])
  also have "map_of ?mc = map_of (pair_counter st)"
    using assms by (simp add: most_common_def map_of_sorted_desc)
  finally show ?thesis by (simp add: dict_get_def)
qed



lemma frozen_has: "frozen_from c c' \<Longrightarrow> dict_has c p \<Longrightarrow> dict_get c' p = dict_get c p"
  unfolding frozen_from_def by blast

lemma frozen_new:
  "frozen_from c c' \<Longrightarrow> \<not> dict_has c p \<Longrightarrow> dict_get c' p = None \<or> dict_get c' p = Some 1"
  unfolding frozen_from_def by blast

lemma dep_pass_get:
  "p \<in> set (syntactic_pairs d) \<Longrightarrow>
   dict_get (pair_counter (dep_pass (sents d) empty_state)) p =
   Some (int (count_list (syntactic_pairs d) p))"
proof -
  assume "p \<in> set (syntactic_pairs d)"
  then have "dict_has (pair_counter (dep_pass (sents d) empty_state)) p"
    by (simp add: dep_pass_has syntactic_pairs_def)
  moreover have "counter_get (pair_counter (dep_pass (sents d) empty_state)) p =
      int (count_list (syntactic_pairs d) p)"
    by (simp add: dep_pass_count syntactic_pairs_def pair_counter_empty counter_get_Nil)
  ultimately show ?thesis
    by (auto simp: dict_has_get counter_get_def)
qed

lemma dep_pass_not_has:
  "p \<notin> set (syntactic_pairs d) \<Longrightarrow> \<not> dict_has (pair_counter (dep_pass (sents d) empty_state)) p"
  by (simp add: dep_pass_has syntactic_pairs_def pair_counter_empty dict_has_Nil)

lemma window_inner_has:
  "dict_has (pair_counter (window_inner toks i st j)) p \<longleftrightarrow>
   dict_has (pair_counter st) p \<or>
   (j \<noteq> i \<and> tok_pos (toks ! j) = ''ADJ'' \<and> p = (lemma_or_text (toks ! i), lemma_or_text (toks ! j)))"
  by (auto simp: window_inner_def Let_def pair_counter_record dict_has_inc)

lemma window_inner_fold_has:
  "dict_has (pair_counter (foldl (window_inner toks i) st js)) p \<longleftrightarrow>
   dict_has (pair_counter st) p \<or>
   p \<in> set (map (\<lambda>j. (lemma_or_text (toks ! i), lemma_or_text (toks ! j)))
              (filter (\<lambda>j. j \<noteq> i \<and> tok_pos (toks ! j) = ''ADJ'') js))"
proof (induction js arbitrary: st)
  case Nil
  show ?case by simp
next
  case (Cons j js)
  show ?case
    unfolding foldl_Cons Cons.IH window_inner_has by auto
qed

lemma window_step_has:
  "dict_has (pair_counter (window_step toks st i)) p \<longleftrightarrow>
   dict_has (pair_counter st) p \<or> p \<in> set (window_pairs_at toks i)"
  by (simp add: window_step_def window_pairs_at_def window_inner_fold_has del: set_map)

lemma window_fold_has:
  "dict_has (pair_counter (foldl (window_step toks) st is)) p \<longleftrightarrow>
   dict_has (pair_counter st) p \<or> p \<in> set (concat (map (window_pairs_at toks) is))"
proof (induction "is" arbitrary: st)
  case Nil
  show ?case by simp
next
  case (Cons i "is")
  show ?case
    unfolding foldl_Cons Cons.IH window_step_has by auto
qed

lemma window_pass_has:
  "dict_has (pair_counter (window_pass toks st)) p \<longleftrightarrow>
   dict_has (pair_counter st) p \<or> p \<in> set (window_pairs toks)"
  by (simp add: window_pass_def window_pairs_def window_fold_has del: set_concat)

lemma window_prefix_split:
  "n \<le> m \<Longrightarrow> window_prefix toks st m = foldl (window_step toks) (window_prefix toks st n) [n ..< m]"
proof -
  assume "n \<le> m"
  then have "[0 ..< m] = [0 ..< n] @ [n ..< m]"
    by (metis le_add_diff_inverse upt_add_eq_append zero_le)
  then show ?thesis
    by (simp add: window_prefix_def)
qed

lemma window_prefix_frozen:
  "n \<le> m \<Longrightarrow>
   frozen_from (pair_counter (window_prefix toks st n)) (pair_counter (window_prefix toks st m))"
  by (simp add: window_prefix_split [of n m] window_fold_frozen frozen_refl)

lemma window_prefix_length: "window_prefix toks st (length toks) = window_pass toks st"
  by (simp add: window_prefix_def window_pass_def)

lemma id_to_token_snoc: "id_to_token (sent @ [t]) = (id_to_token sent)(tok_id t \<mapsto> t)"
  by (simp add: id_to_token_def)

lemma id_to_token_last:
  "id_to_token sent h = List.find (\<lambda>u. tok_id u = h) (rev sent)"
proof (induction sent rule: rev_induct)
  case Nil
  show ?case by (simp add: id_to_token_def)
next
  case (snoc t sent)
  then show ?case by (simp add: id_to_token_snoc)
qed

lemma id_to_token_None: "h \<notin> set (map tok_id sent) \<Longrightarrow> id_to_token sent h = None"
  by (auto simp: id_to_token_last find_None_iff)

subsection \<open>Totals of the collocation index\<close>

text \<open>
  Claim C2. For every document, \<open>extract_noun_adj_pairs\<close> returns an index whose
  \<open>total_pairs\<close> is the sum of \<open>count\<close> over the entries of \<open>pair_list\<close> and whose
  \<open>unique_pairs\<close> is the length of \<open>pair_list\<close>; the (noun, adjective) keys of \<open>pair_list\<close>
  are pairwise distinct, so that length is the number of distinct keys.
\<close>

theorem pair_list_totals:
  "\<exists>r. extract_noun_adj_pairs d = Inr r \<and>
       sum_list (map pe_count (pair_list r)) = total_pairs r \<and>
       int (length (pair_list r)) = unique_pairs r \<and>
       distinct (map (\<lambda>e. (pe_noun e, pe_adj e)) (pair_list r))"
proof -
  let ?st = "window_pass (tokens d) (dep_pass (sents d) empty_state)"
  let ?mc = "most_common (pair_counter ?st)"
  have cnt: "map pe_count (pair_list (build_output ?st)) = map snd ?mc"
    by (simp add: build_output_def build_pair_list_def o_def case_prod_unfold)
  have keys: "map (\<lambda>e. (pe_noun e, pe_adj e)) (pair_list (build_output ?st)) = map fst ?mc"
    by (simp add: build_output_def build_pair_list_def o_def case_prod_unfold)
  have "sum_list (map snd ?mc) = total_pairs (build_output ?st)"
    by (simp add: build_output_def most_common_def sum_list_sorted_desc)
  moreover have "int (length (pair_list (build_output ?st))) = unique_pairs (build_output ?st)"
    by (simp add: build_output_def build_pair_list_def most_common_def length_sorted_desc)
  moreover have "distinct (map fst ?mc)"
    by (simp add: most_common_def distinct_sorted_desc final_distinct)
  ultimately show ?thesis
    by (simp add: extract_noun_adj_pairs_def cnt keys)
qed

text \<open>On the three-sentence document the index has one key with count 2.\<close>

theorem pair_list_totals_witness:
  "\<exists>r. extract_noun_adj_pairs doc_houses = Inr r \<and>
       sum_list (map pe_count (pair_list r)) = total_pairs r \<and>
       int (length (pair_list r)) = unique_pairs r \<and>
       distinct (map (\<lambda>e. (pe_noun e, pe_adj e)) (pair_list r)) \<and>
       total_pairs r = 2 \<and> unique_pairs r = 1"
proof -
  obtain r where r: "extract_noun_adj_pairs doc_houses = Inr r"
    and t: "sum_list (map pe_count (pair_list r)) = total_pairs r"
      "int (length (pair_list r)) = unique_pairs r"
      "distinct (map (\<lambda>e. (pe_noun e, pe_adj e)) (pair_list r))"
    using pair_list_totals [of doc_houses] by blast
  have "total_pairs (projr (extract_noun_adj_pairs doc_houses)) = 2"
    by code_simp
  moreover have "unique_pairs (projr (extract_noun_adj_pairs doc_houses)) = 1"
    by code_simp
  ultimately show ?thesis
    using r t by simp
qed

subsection \<open>Precedence of the dependency pass\<close>

text \<open>
  Claim C1. If the dependency pass records the pair \<open>p\<close> at least once, then
  \<open>extract_noun_adj_pairs\<close> returns an index whose \<open>pair_list\<close> has exactly one entry for \<open>p\<close>,
  and the count of that entry is the number of recordings of \<open>p\<close> by the dependency pass:
  the window co-occurrences of \<open>p\<close> in the flat token list, however many, add nothing.
\<close>

theorem syntactic_pair_count_final:
  assumes "p \<in> set (syntactic_pairs d)"
  shows "\<exists>r. extract_noun_adj_pairs d = Inr r \<and>
             entry_counts r p = [int (count_list (syntactic_pairs d) p)]"
proof -
  let ?s1 = "dep_pass (sents d) empty_state"
  let ?s2 = "window_pass (tokens d) ?s1"
  have "dict_has (pair_counter ?s1) p"
    using dep_pass_get [OF assms] by (simp add: dict_has_get)
  then have "dict_get (pair_counter ?s2) p = dict_get (pair_counter ?s1) p"
    by (rule frozen_has [OF window_pass_frozen])
  then have "entry_counts (build_output ?s2) p = [int (count_list (syntactic_pairs d) p)]"
    by (simp add: entry_counts_build final_distinct dep_pass_get [OF assms])
  then show ?thesis
    by (simp add: extract_noun_adj_pairs_def)
qed

text \<open>
  In the three-sentence document the dependency pass records (house, old) twice, the window
  pass meets the pair five times, and the final count is 2.
\<close>

theorem syntactic_pair_count_final_witness:
  "(''house'', ''old'') \<in> set (syntactic_pairs doc_houses) \<and>
   count_list (window_pairs (tokens doc_houses)) (''house'', ''old'') = 5 \<and>
   (\<exists>r. extract_noun_adj_pairs doc_houses = Inr r \<and> entry_counts r (''house'', ''old'') = [2])"
proof -
  have s: "syntactic_pairs doc_houses = [(''house'', ''old''), (''house'', ''old'')]"
    by code_simp
  have m: "(''house'', ''old'') \<in> set (syntactic_pairs doc_houses)"
    by (simp add: s)
  have w: "count_list (window_pairs (tokens doc_houses)) (''house'', ''old'') = 5"
    by code_simp
  show ?thesis
    using syntactic_pair_count_final [OF m] m w by (simp add: s)
qed

subsection \<open>Pairs found by the window pass alone\<close>

text \<open>
  Claim C9. If the dependency pass never records the pair \<open>p\<close>, then \<open>pair_list\<close> has an entry
  for \<open>p\<close> exactly when \<open>p\<close> co-occurs in some window, and then it has one entry, of count 1,
  however many co-occurrences there are. Throughout the window pass a pair that is in the
  counter after \<open>n\<close> rounds of the outer loop has the same count after any later round \<open>m\<close>.
\<close>

theorem window_pair_count_one:
  assumes "p \<notin> set (syntactic_pairs d)"
  shows "(\<exists>r. extract_noun_adj_pairs d = Inr r \<and>
              entry_counts r p = (if p \<in> set (window_pairs (tokens d)) then [1] else [])) \<and>
         (\<forall>q n m. n \<le> m \<and>
              dict_has (pair_counter (window_prefix (tokens d) (dep_pass (sents d) empty_state) n)) q \<longrightarrow>
              counter_get (pair_counter (window_prefix (tokens d) (dep_pass (sents d) empty_state) m)) q =
              counter_get (pair_counter (window_prefix (tokens d) (dep_pass (sents d) empty_state) n)) q)"
proof -
  let ?s1 = "dep_pass (sents d) empty_state"
  let ?s2 = "window_pass (tokens d) ?s1"
  have new: "\<not> dict_has (pair_counter ?s1) p"
    by (rule dep_pass_not_has [OF assms])
  have one: "dict_get (pair_counter ?s2) p = None \<or> dict_get (pair_counter ?s2) p = Some 1"
    by (rule frozen_new [OF window_pass_frozen new])
  have "dict_has (pair_counter ?s2) p \<longleftrightarrow> p \<in> set (window_pairs (tokens d))"
    using new by (simp add: window_pass_has)
  then have "dict_get (pair_counter ?s2) p =
      (if p \<in> set (window_pairs (tokens d)) then Some 1 else None)"
    using one by (auto simp: dict_has_get)
  then have "entry_counts (build_output ?s2) p =
      (if p \<in> set (window_pairs (tokens d)) then [1] else [])"
    by (simp add: entry_counts_build final_distinct)
  then have first: "\<exists>r. extract_noun_adj_pairs d = Inr r \<and>
      entry_counts r p = (if p \<in> set (window_pairs (tokens d)) then [1] else [])"
    by (simp add: extract_noun_adj_pairs_def)
  have "counter_get (pair_counter (window_prefix (tokens d) ?s1 m)) q =
        counter_get (pair_counter (window_prefix (tokens d) ?s1 n)) q"
    if "n \<le> m" "dict_has (pair_counter (window_prefix (tokens d) ?s1 n)) q" for q n m
    using frozen_has [OF window_prefix_frozen [OF that(1)] that(2)]
    by (simp add: counter_get_def)
  with first show ?thesis by blast
qed

text \<open>
  In "red big red car" no relation is annotated and (car, red) co-occurs twice in the
  window of the noun; its count is 1, and it is 1 already after the round of the noun.
\<close>

theorem window_pair_count_one_witness:
  "(''car'', ''red'') \<notin> set (syntactic_pairs doc_car) \<and>
   count_list (window_pairs (tokens doc_car)) (''car'', ''red'') = 2 \<and>
   (\<exists>r. extract_noun_adj_pairs doc_car = Inr r \<and> entry_counts r (''car'', ''red'') = [1]) \<and>
   dict_has (pair_counter (window_prefix (tokens doc_car) (dep_pass (sents doc_car) empty_state) 3))
     (''car'', ''red'') \<and>
   counter_get (pair_counter (window_prefix (tokens doc_car) (dep_pass (sents doc_car) empty_state) 4))
     (''car'', ''red'') = 1"
proof -
  have s: "syntactic_pairs doc_car = []"
    by code_simp
  have m: "(''car'', ''red'') \<notin> set (syntactic_pairs doc_car)"
    by (simp add: s)
  have w: "window_pairs (tokens doc_car) = [(''car'', ''red''), (''car'', ''big''), (''car'', ''red'')]"
    by code_simp
  have h: "dict_has (pair_counter (window_prefix (tokens doc_car) (dep_pass (sents doc_car) empty_state) 3))
     (''car'', ''red'')"
    by code_simp
  have c: "counter_get (pair_counter (window_prefix (tokens doc_car) (dep_pass (sents doc_car) empty_state) 3))
     (''car'', ''red'') = 1"
    by code_simp
  note t = window_pair_count_one [OF m]
  have e: "\<exists>r. extract_noun_adj_pairs doc_car = Inr r \<and> entry_counts r (''car'', ''red'') = [1]"
    using conjunct1 [OF t] by (simp add: w)
  have "(3::nat) \<le> 4 \<and>
      dict_has (pair_counter (window_prefix (tokens doc_car) (dep_pass (sents doc_car) empty_state) 3))
        (''car'', ''red'')"
    using h by simp
  then have "counter_get (pair_counter (window_prefix (tokens doc_car) (dep_pass (sents doc_car) empty_state) 4))
      (''car'', ''red'') = 1"
    using conjunct2 [OF t, rule_format, of 3 4 "(''car'', ''red'')"] c by simp
  then show ?thesis
    using m h e by (simp add: w)
qed

subsection \<open>Unresolved and ambiguous head ids\<close>

text \<open>
  Claim C6, as the code has it. \<open>extract_noun_adj_pairs\<close> returns on every document: it
  never raises. A token whose \<open>head_id\<close> is \<open>None\<close> or is the id of no token of the sentence is
  skipped by the dependency pass, which records no pair at it and leaves both dicts as they
  are. When several tokens of a sentence carry the same id, that id resolves to the last of
  them, and the pass goes on.
\<close>

theorem unresolved_head_skipped:
  "(\<exists>r. extract_noun_adj_pairs d = Inr r) \<and>
   (head_unresolved sent t \<longrightarrow>
      dep_pair (id_to_token sent) t = None \<and> dep_step (id_to_token sent) st t = st) \<and>
   id_to_token sent h = List.find (\<lambda>u. tok_id u = h) (rev sent)"
proof -
  have "dep_pair (id_to_token sent) t = None" if "head_unresolved sent t"
    using that
    by (auto simp: head_unresolved_def dep_pair_def get_head_def id_to_token_None
        split: option.splits)
  then show ?thesis
    by (simp add: extract_noun_adj_pairs_def dep_step_None id_to_token_last)
qed

text \<open>
  The head id \<open>1_9\<close> of "old" is no token's id: nothing is recorded. In the sentence with two
  tokens of id \<open>1_2\<close> the id resolves to "garden", the later one.
\<close>

theorem unresolved_head_skipped_witness:
  "head_unresolved (hd (sents doc_dangling)) (hd (tokens doc_dangling)) \<and>
   dep_pair (id_to_token (hd (sents doc_dangling))) (hd (tokens doc_dangling)) = None \<and>
   (\<exists>r. extract_noun_adj_pairs doc_dangling = Inr r \<and> pair_list r = []) \<and>
   map_option tok_text (id_to_token (hd (sents doc_collision)) ''1_2'') = Some ''garden''"
proof -
  have u: "head_unresolved (hd (sents doc_dangling)) (hd (tokens doc_dangling))"
    by code_simp
  have p: "pair_list (projr (extract_noun_adj_pairs doc_dangling)) = []"
    by code_simp
  have f: "map_option tok_text (List.find (\<lambda>u. tok_id u = ''1_2'') (rev (hd (sents doc_collision))))
      = Some ''garden''"
    by code_simp
  show ?thesis
    using unresolved_head_skipped [of doc_dangling "hd (sents doc_dangling)"
        "hd (tokens doc_dangling)" empty_state "''1_2''"]
      unresolved_head_skipped [of doc_collision "hd (sents doc_collision)"
        "hd (tokens doc_collision)" empty_state "''1_2''"] u p f
    by auto
qed

text \<open>
  The claim as the specification states it fails: on the sentence with two tokens of id
  \<open>1_2\<close> the extractor does not raise. It attaches "old" to "garden" in the dependency pass
  and returns an index of two pairs.
\<close>

theorem collision_not_raised_counterexample:
  "id_collision (hd (sents doc_collision)) \<and>
   \<not> isl (extract_noun_adj_pairs doc_collision) \<and>
   syntactic_pairs doc_collision = [(''garden'', ''old'')] \<and>
   map (\<lambda>e. (pe_noun e, pe_adj e, pe_count e)) (pair_list (projr (extract_noun_adj_pairs doc_collision)))
     = [(''garden'', ''old'', 1), (''house'', ''old'', 1)]"
  by code_simp

section \<open>The dictionary builder\<close>

lemma dict_run_Nil: "dict_run toks [] = empty_dict_state"
  by (simp add: dict_run_def)

lemma dict_run_snoc: "dict_run toks (pre @ [t]) = dict_step toks (dict_run toks pre) t"
  by (simp add: dict_run_def)

lemma dict_step_skip: "tok_pos t \<notin> INCLUDE_POS \<Longrightarrow> dict_step toks st t = st"
  by (simp add: dict_step_def)

lemma freq_step:
  "tok_pos t \<in> INCLUDE_POS \<Longrightarrow> freq (dict_step toks st t) = counter_inc (token_key t) (freq st)"
  by (simp add: dict_step_def Let_def token_key_def)

lemma forms_step:
  "tok_pos t \<in> INCLUDE_POS \<Longrightarrow>
   form_sets (dict_step toks st t) = forms_add (token_key t) (lower (tok_text t)) (form_sets st)"
  by (simp add: dict_step_def Let_def token_key_def)

lemma entries_step:
  "tok_pos t \<in> INCLUDE_POS \<Longrightarrow>
   entries (dict_step toks st t) =
     (if dict_has (entries st) (token_key t) then entries st
      else dict_set (token_key t)
             \<lparr>de_lemma = fst (token_key t), de_pos = snd (token_key t), de_count = 0,
              de_surface_forms = [], de_example = extract_context toks t 6\<rparr> (entries st))"
  by (simp add: dict_step_def Let_def token_key_def)

lemma key_tokens_snoc:
  "key_tokens (pre @ [t]) k = key_tokens pre k @ (if key_match k t then [t] else [])"
  by (simp add: key_tokens_def)

lemma freq_count:
  "counter_get (freq (dict_run toks pre)) k = int (length (key_tokens pre k))"
proof (induction pre rule: rev_induct)
  case Nil
  show ?case
    by (simp add: dict_run_Nil empty_dict_state_def counter_get_Nil key_tokens_def)
next
  case (snoc t pre)
  show ?case
  proof (cases "tok_pos t \<in> INCLUDE_POS")
    case True
    then show ?thesis
      using snoc by (auto simp: dict_run_snoc freq_step counter_get_inc key_tokens_snoc key_match_def)
  next
    case False
    then show ?thesis
      using snoc by (simp add: dict_run_snoc dict_step_skip key_tokens_snoc key_match_def)
  qed
qed

lemma freq_has:
  "dict_has (freq (dict_run toks pre)) k \<longleftrightarrow> (\<exists>t \<in> set pre. key_match k t)"
proof (induction pre rule: rev_induct)
  case Nil
  show ?case
    by (simp add: dict_run_Nil empty_dict_state_def dict_has_Nil)
next
  case (snoc t pre)
  show ?case
  proof (cases "tok_pos t \<in> INCLUDE_POS")
    case True
    then show ?thesis
      using snoc by (auto simp: dict_run_snoc freq_step dict_has_inc key_match_def)
  next
    case False
    then show ?thesis
      using snoc by (auto simp: dict_run_snoc dict_step_skip key_match_def)
  qed
qed

lemma entries_keys: "map fst (entries (dict_run toks pre)) = map fst (freq (dict_run toks pre))"
proof (induction pre rule: rev_induct)
  case Nil
  show ?case
    by (simp add: dict_run_Nil empty_dict_state_def)
next
  case (snoc t pre)
  show ?case
  proof (cases "tok_pos t \<in> INCLUDE_POS")
    case True
    then show ?thesis
      using snoc
      by (simp add: dict_run_snoc freq_step entries_step counter_inc_def dict_set_keys dict_has_def)
  next
    case False
    then show ?thesis
      using snoc by (simp add: dict_run_snoc dict_step_skip)
  qed
qed

lemma freq_distinct: "distinct (map fst (freq (dict_run toks pre)))"
proof (induction pre rule: rev_induct)
  case Nil
  show ?case
    by (simp add: dict_run_Nil empty_dict_state_def)
next
  case (snoc t pre)
  then show ?case
    by (cases "tok_pos t \<in> INCLUDE_POS")
       (simp_all add: dict_run_snoc freq_step dict_step_skip counter_inc_distinct)
qed

lemma first_seen_less: "(\<exists>t \<in> set pre. key_match k t) \<Longrightarrow> first_seen pre k < length pre"
  unfolding first_seen_def by (induction pre) auto

lemma first_seen_snoc_old:
  "(\<exists>t \<in> set pre. key_match k t) \<Longrightarrow> first_seen (pre @ [t]) k = first_seen pre k"
  unfolding first_seen_def by (auto simp: takeWhile_append1)

lemma first_seen_snoc_new:
  "\<not> (\<exists>t \<in> set pre. key_match k t) \<Longrightarrow> key_match k t \<Longrightarrow> first_seen (pre @ [t]) k = length pre"
  unfolding first_seen_def by (simp add: takeWhile_append2)

lemma first_seen_nth:
  "(\<exists>t \<in> set toks. key_match k t) \<Longrightarrow> key_match k (toks ! first_seen toks k)"
  unfolding first_seen_def
  by (metis (mono_tags, lifting) first_seen_def first_seen_less nth_length_takeWhile)

lemma first_seen_min: "i < first_seen toks k \<Longrightarrow> \<not> key_match k (toks ! i)"
  unfolding first_seen_def
  by (metis (mono_tags, lifting) nth_mem set_takeWhileD takeWhile_nth)

lemma freq_order:
  "sorted_wrt (\<lambda>a b. first_seen pre a < first_seen pre b) (map fst (freq (dict_run toks pre)))"
proof (induction pre rule: rev_induct)
  case Nil
  show ?case
    by (simp add: dict_run_Nil empty_dict_state_def)
next
  case (snoc t pre)
  let ?ks = "map fst (freq (dict_run toks pre))"
  have old: "\<exists>u \<in> set pre. key_match a u" if "a \<in> set ?ks" for a
    using that freq_has [of toks pre a] by (simp add: dict_has_def)
  have same: "sorted_wrt (\<lambda>a b. first_seen (pre @ [t]) a < first_seen (pre @ [t]) b) ?ks"
    by (rule sorted_wrt_mono_rel [OF _ snoc.IH]) (simp add: first_seen_snoc_old old)
  show ?case
  proof (cases "tok_pos t \<in> INCLUDE_POS")
    case False
    then show ?thesis
      using same by (simp add: dict_run_snoc dict_step_skip)
  next
    case True
    show ?thesis
    proof (cases "token_key t \<in> set ?ks")
      case True
      with \<open>tok_pos t \<in> INCLUDE_POS\<close> show ?thesis
        using same by (simp add: dict_run_snoc freq_step counter_inc_def dict_set_keys)
    next
      case False
      then have new: "\<not> (\<exists>u \<in> set pre. key_match (token_key t) u)"
        using freq_has [of toks pre "token_key t"] by (simp add: dict_has_def)
      have km: "key_match (token_key t) t"
        using \<open>tok_pos t \<in> INCLUDE_POS\<close> by (simp add: key_match_def)
      have "first_seen (pre @ [t]) a < first_seen (pre @ [t]) (token_key t)" if "a \<in> set ?ks" for a
        using old [OF that] first_seen_less [of pre a]
        by (simp add: first_seen_snoc_old first_seen_snoc_new [OF new km])
      then show ?thesis
        using same False \<open>tok_pos t \<in> INCLUDE_POS\<close>
        by (simp add: dict_run_snoc freq_step counter_inc_def dict_set_keys sorted_wrt_append)
    qed
  qed
qed


lemma find_snoc:
  "List.find P (xs @ [x]) =
     (case List.find P xs of None \<Rightarrow> (if P x then Some x else None) | Some y \<Rightarrow> Some y)"
  by (induction xs) auto

lemma entries_get:
  "dict_get (entries (dict_run toks pre)) k =
   map_option (fresh_entry toks k) (List.find (key_match k) pre)"
proof (induction pre rule: rev_induct)
  case Nil
  show ?case
    by (simp add: dict_run_Nil empty_dict_state_def dict_get_def)
next
  case (snoc t pre)
  show ?case
  proof (cases "tok_pos t \<in> INCLUDE_POS")
    case False
    then show ?thesis
      using snoc
      by (simp add: dict_run_snoc dict_step_skip find_snoc key_match_def split: option.splits)
  next
    case True
    show ?thesis
    proof (cases "k = token_key t")
      case False
      then show ?thesis
        using snoc True
        by (simp add: dict_run_snoc entries_step dict_get_set find_snoc key_match_def
            split: option.splits)
    next
      case k: True
      have km: "key_match k t"
        using True k by (simp add: key_match_def)
      show ?thesis
      proof (cases "dict_has (entries (dict_run toks pre)) k")
        case has: True
        then show ?thesis
          using snoc True k
          by (auto simp: dict_run_snoc entries_step find_snoc dict_has_get split: option.splits)
      next
        case False
        then have "List.find (key_match k) pre = None"
          using snoc by (simp add: dict_has_get)
        then show ?thesis
          using False True km k
          by (simp add: dict_run_snoc entries_step find_snoc dict_get_set fresh_entry_def)
      qed
    qed
  qed
qed

lemma forms_of_add:
  "forms_of (forms_add k f fs) k' =
     (if k' = k then List.insert f (forms_of fs k) else forms_of fs k')"
  by (simp add: forms_of_def forms_add_def dict_get_set)

lemma forms_set:
  "set (forms_of (form_sets (dict_run toks pre)) k) =
     (\<lambda>t. lower (tok_text t)) ` set (key_tokens pre k) \<and>
   distinct (forms_of (form_sets (dict_run toks pre)) k)"
proof (induction pre rule: rev_induct)
  case Nil
  show ?case
    by (simp add: dict_run_Nil empty_dict_state_def forms_of_def dict_get_def key_tokens_def)
next
  case (snoc t pre)
  show ?case
  proof (cases "tok_pos t \<in> INCLUDE_POS")
    case False
    then show ?thesis
      using snoc by (simp add: dict_run_snoc dict_step_skip key_tokens_snoc key_match_def)
  next
    case True
    then show ?thesis
      using snoc
      by (auto simp: dict_run_snoc forms_step forms_of_add key_tokens_snoc key_match_def)
  qed
qed

lemma find_first_seen:
  assumes "\<exists>t \<in> set toks. key_match k t"
  shows "List.find (key_match k) toks = Some (toks ! first_seen toks k)"
proof -
  have "List.find (key_match k) toks = Some (toks ! first_seen toks k)"
    unfolding find_Some_iff
    using first_seen_less [OF assms] first_seen_nth [OF assms] first_seen_min
    by blast
  then show ?thesis .
qed

lemma index_is_Some:
  "index_is toks target = Some i \<Longrightarrow>
   i < length toks \<and> tok_ref (toks ! i) = tok_ref target \<and>
   (\<forall>j < i. tok_ref (toks ! j) \<noteq> tok_ref target)"
proof (induction toks arbitrary: i)
  case Nil
  then show ?case by simp
next
  case (Cons t ts)
  show ?case
  proof (cases "tok_ref t = tok_ref target")
    case True
    then show ?thesis using Cons.prems by simp
  next
    case False
    then obtain i' where i': "index_is ts target = Some i'" "i = Suc i'"
      using Cons.prems by auto
    from Cons.IH [OF i'(1)] False i'(2) show ?thesis
      by (auto simp: nth_Cons' less_Suc_eq_0_disj)
  qed
qed

lemma index_is_None: "index_is toks target = None \<Longrightarrow> \<forall>t \<in> set toks. tok_ref t \<noteq> tok_ref target"
  by (induction toks) (auto split: if_splits)

lemma index_is_first_seen:
  assumes ex: "\<exists>t \<in> set toks. key_match k t" and rc: "refs_consistent toks"
  shows "index_is toks (toks ! first_seen toks k) = Some (first_seen toks k)"
proof -
  let ?p = "first_seen toks k"
  have p: "?p < length toks" by (rule first_seen_less [OF ex])
  then have "toks ! ?p \<in> set toks" by simp
  then obtain i where i: "index_is toks (toks ! ?p) = Some i"
    using index_is_None [of toks "toks ! ?p"] by (cases "index_is toks (toks ! ?p)") auto
  note s = index_is_Some [OF i]
  have "\<not> ?p < i"
    using s by blast
  then have le: "i \<le> ?p"
    by simp
  have "toks ! i = toks ! ?p"
    using rc s p unfolding refs_consistent_def by blast
  then have "key_match k (toks ! i)"
    using first_seen_nth [OF ex] by simp
  then have "\<not> i < ?p"
    using first_seen_min by blast
  with le i show ?thesis by simp
qed

lemma slice_nth:
  assumes "hi \<le> length xs"
  shows "slice xs lo hi = map ((!) xs) [lo ..< hi]"
proof (rule nth_equalityI)
  show len: "length (slice xs lo hi) = length (map ((!) xs) [lo ..< hi])"
    using assms by (simp add: slice_def)
  fix i
  assume "i < length (slice xs lo hi)"
  then have i: "i < hi - lo"
    using assms by (simp add: slice_def)
  then have "slice xs lo hi ! i = xs ! (lo + i)"
    using assms by (simp add: slice_def)
  moreover have "map ((!) xs) [lo ..< hi] ! i = xs ! (lo + i)"
    using i by (simp add: nth_map_upt)
  ultimately show "slice xs lo hi ! i = map ((!) xs) [lo ..< hi] ! i"
    by simp
qed

lemma context_first_seen:
  assumes "\<exists>t \<in> set toks. key_match k t" "refs_consistent toks"
  shows "extract_context toks (toks ! first_seen toks k) 6 = context_window toks (first_seen toks k)"
  by (simp add: extract_context_def index_is_first_seen [OF assms] context_window_def slice_nth
      o_def add.commute)


lemma merge_loop_ok:
  "(\<And>k c. (k, c) \<in> set xs \<Longrightarrow> dict_get (entries st) k = Some (ent k)) \<Longrightarrow>
   merge_loop st xs acc =
     Inr (acc @ map (\<lambda>(k, c). (ent k)\<lparr>de_count := c,
                       de_surface_forms := sort (forms_of (form_sets st) k)\<rparr>) xs)"
proof (induction xs arbitrary: acc)
  case Nil
  show ?case by simp
next
  case (Cons x xs)
  obtain k c where x: "x = (k, c)" by (cases x)
  have k: "dict_get (entries st) k = Some (ent k)"
    using Cons.prems [of k c] x by simp
  have rest: "dict_get (entries st) k' = Some (ent k')" if "(k', c') \<in> set xs" for k' c'
    using Cons.prems [of k' c'] that by simp
  have "merge_loop st xs acc' =
      Inr (acc' @ map (\<lambda>(k, c). (ent k)\<lparr>de_count := c,
                       de_surface_forms := sort (forms_of (form_sets st) k)\<rparr>) xs)" for acc'
    by (rule Cons.IH) (rule rest)
  then show ?case
    using k x by simp
qed

lemma freq_key_match:
  "(k, c) \<in> set (freq (dict_run toks pre)) \<Longrightarrow> \<exists>t \<in> set pre. key_match k t"
  using freq_has [of toks pre k] by (force simp: dict_has_def)

lemma build_dictionary_eq:
  "build_dictionary d =
     Inr (map (final_entry (tokens d)) (most_common (freq (dict_run (tokens d) (tokens d)))))"
proof -
  let ?toks = "tokens d"
  let ?st = "dict_run ?toks ?toks"
  let ?ent = "\<lambda>k. fresh_entry ?toks k (?toks ! first_seen ?toks k)"
  have "dict_get (entries ?st) k = Some (?ent k)" if "(k, c) \<in> set (most_common (freq ?st))" for k c
  proof -
    have "(k, c) \<in> set (freq ?st)"
      using that by (simp add: most_common_def set_sorted_desc)
    then have "\<exists>t \<in> set ?toks. key_match k t"
      by (rule freq_key_match)
    then show ?thesis
      by (simp add: entries_get find_first_seen)
  qed
  then have "merge_loop ?st (most_common (freq ?st)) [] =
      Inr ([] @ map (\<lambda>(k, c). (?ent k)\<lparr>de_count := c,
                       de_surface_forms := sort (forms_of (form_sets ?st) k)\<rparr>)
                 (most_common (freq ?st)))"
    by (rule merge_loop_ok)
  moreover have "(\<lambda>(k, c). (?ent k)\<lparr>de_count := c,
                       de_surface_forms := sort (forms_of (form_sets ?st) k)\<rparr>) = final_entry ?toks"
    by (rule ext) (simp add: final_entry_def fresh_entry_def case_prod_unfold)
  ultimately show ?thesis
    by (simp add: build_dictionary_def Let_def)
qed

lemma insort_key_ranked:
  fixes f :: "'a \<Rightarrow> int"
  assumes "sorted_wrt (\<lambda>a b. f a < f b \<or> (f a = f b \<and> Q a b)) zs" "\<forall>z \<in> set zs. Q y z"
  shows "sorted_wrt (\<lambda>a b. f a < f b \<or> (f a = f b \<and> Q a b)) (insort_key f y zs)"
  using assms
proof (induction zs)
  case Nil
  show ?case by simp
next
  case (Cons z zs)
  show ?case
  proof (cases "f y \<le> f z")
    case True
    have "f y < f w \<or> (f y = f w \<and> Q y w)" if "w \<in> set (z # zs)" for w
    proof -
      have "f z \<le> f w" using Cons.prems(1) that by auto
      moreover have "Q y w" using Cons.prems(2) that by blast
      ultimately show ?thesis using True by auto
    qed
    then show ?thesis
      using True Cons.prems(1) by simp
  next
    case False
    then have "sorted_wrt (\<lambda>a b. f a < f b \<or> (f a = f b \<and> Q a b)) (insort_key f y zs)"
      using Cons by simp
    then show ?thesis
      using False Cons.prems(1) by (auto simp: set_insort_key)
  qed
qed

lemma sort_key_ranked:
  fixes f :: "'a \<Rightarrow> int"
  shows "sorted_wrt Q ys \<Longrightarrow>
         sorted_wrt (\<lambda>a b. f a < f b \<or> (f a = f b \<and> Q a b)) (sort_key f ys)"
proof (induction ys)
  case Nil
  show ?case by simp
next
  case (Cons y ys)
  then show ?case
    by (simp add: sort_key_simps insort_key_ranked)
qed

lemma sorted_desc_ranked:
  assumes "sorted_wrt Q xs"
  shows "sorted_wrt (\<lambda>a b. f b < f a \<or> (f a = f b \<and> Q a b)) (sorted_desc f xs)"
proof -
  have "sorted_wrt (\<lambda>a b. Q b a) (rev xs)"
    using assms by (simp add: sorted_wrt_rev)
  then have "sorted_wrt (\<lambda>a b. f a < f b \<or> (f a = f b \<and> Q b a)) (sort_key f (rev xs))"
    by (rule sort_key_ranked)
  then have "sorted_wrt (\<lambda>a b. f b < f a \<or> (f b = f a \<and> Q a b)) (sorted_desc f xs)"
    by (simp add: sorted_desc_def sorted_wrt_rev)
  then show ?thesis
    by (rule sorted_wrt_mono_rel [rotated]) auto
qed

lemma dictionary_ranked:
  "sorted_wrt (ranked_before (tokens d))
     (map (final_entry (tokens d)) (most_common (freq (dict_run (tokens d) (tokens d)))))"
proof -
  let ?toks = "tokens d"
  let ?fr = "freq (dict_run ?toks ?toks)"
  have "sorted_wrt (\<lambda>a b. first_seen ?toks (fst a) < first_seen ?toks (fst b)) ?fr"
    using freq_order [of ?toks ?toks] by (simp add: sorted_wrt_map)
  then have "sorted_wrt (\<lambda>a b. snd b < snd a \<or>
      (snd a = snd b \<and> first_seen ?toks (fst a) < first_seen ?toks (fst b))) (most_common ?fr)"
    unfolding most_common_def by (rule sorted_desc_ranked)
  then show ?thesis
    by (simp add: sorted_wrt_map ranked_before_def final_entry_def entry_key_def)
qed

lemma entry_key_final: "entry_key (final_entry toks kc) = fst kc"
  by (simp add: entry_key_def final_entry_def)

lemma dictionary_keys:
  "map entry_key (map (final_entry toks) (most_common c)) = map fst (most_common c)"
  by (simp add: entry_key_final o_def)

lemma freq_keys_set:
  "set (map fst (freq (dict_run toks toks))) =
   token_key ` {t \<in> set toks. tok_pos t \<in> INCLUDE_POS}"
proof -
  have "k \<in> set (map fst (freq (dict_run toks toks))) \<longleftrightarrow>
        k \<in> token_key ` {t \<in> set toks. tok_pos t \<in> INCLUDE_POS}" for k
  proof -
    have "k \<in> set (map fst (freq (dict_run toks toks))) \<longleftrightarrow> (\<exists>t \<in> set toks. key_match k t)"
      using freq_has [of toks toks k] by (simp only: dict_has_def)
    also have "\<dots> \<longleftrightarrow> k \<in> token_key ` {t \<in> set toks. tok_pos t \<in> INCLUDE_POS}"
      unfolding key_match_def by blast
    finally show ?thesis .
  qed
  then show ?thesis by blast
qed

lemma freq_item_count:
  assumes "(k, c) \<in> set (freq (dict_run toks toks))"
  shows "c = int (length (key_tokens toks k))"
proof -
  have "map_of (freq (dict_run toks toks)) k = Some c"
    using assms freq_distinct by (simp add: map_of_is_SomeI)
  then have "counter_get (freq (dict_run toks toks)) k = c"
    by (simp add: counter_get_def dict_get_def)
  then show ?thesis
    by (simp add: freq_count)
qed

lemma sorted_forms:
  "sort (forms_of (form_sets (dict_run toks toks)) k) =
   sorted_list_of_set ((\<lambda>t. lower (tok_text t)) ` set (key_tokens toks k))"
proof -
  let ?xs = "forms_of (form_sets (dict_run toks toks)) k"
  have s: "set ?xs = (\<lambda>t. lower (tok_text t)) ` set (key_tokens toks k)" and d: "distinct ?xs"
    using forms_set [of toks toks k] by simp_all
  have "sorted_list_of_set (set ?xs) = sort (remdups ?xs)"
    by (rule sorted_list_of_set_sort_remdups)
  then show ?thesis
    using s d by (simp add: distinct_remdups_id)
qed

lemma distinct_refs_consistent: "distinct (map tok_ref toks) \<Longrightarrow> refs_consistent toks"
  unfolding refs_consistent_def
  by (metis distinct_conv_nth length_map nth_map)

lemma later_occurrence_keeps_entries:
  "dict_has (entries st) (token_key t) \<Longrightarrow> entries (dict_step toks st t) = entries st"
  by (cases "tok_pos t \<in> INCLUDE_POS") (simp_all add: entries_step dict_step_skip)

lemma doc_words_result:
  "build_dictionary doc_words =
     Inr [\<lparr>de_lemma = ''cat'', de_pos = ''NOUN'', de_count = 3,
           de_surface_forms = [''cat'', ''cats''],
           de_example = ''saw Cats , cat ran cat and Dog''\<rparr>,
          \<lparr>de_lemma = ''see'', de_pos = ''VERB'', de_count = 1,
           de_surface_forms = [''saw''],
           de_example = ''saw Cats , cat ran cat and''\<rparr>,
          \<lparr>de_lemma = ''run'', de_pos = ''VERB'', de_count = 1,
           de_surface_forms = [''ran''],
           de_example = ''saw Cats , cat ran cat and Dog .''\<rparr>,
          \<lparr>de_lemma = ''dog'', de_pos = ''NOUN'', de_count = 1,
           de_surface_forms = [''dog''],
           de_example = ''Cats , cat ran cat and Dog .''\<rparr>]"
  by code_simp

lemma doc_words_first_seen:
  "map (first_seen (tokens doc_words))
     [(''cat'', ''NOUN''), (''see'', ''VERB''), (''run'', ''VERB''), (''dog'', ''NOUN'')] = [1, 0, 4, 7]"
  by code_simp

lemma doc_words_refs: "distinct (map tok_ref (tokens doc_words))"
  by code_simp

subsection \<open>Order of the dictionary\<close>

text \<open>
  Claim C8. \<open>build_dictionary\<close> returns on every document, and its list is sorted by count,
  larger first; of two entries with equal counts the one whose key is first seen earlier in
  the flat token list comes first. The order is thus fixed by the document alone.
\<close>

theorem dictionary_order:
  "\<exists>r. build_dictionary d = Inr r \<and>
       sorted_wrt (\<lambda>a b. de_count b \<le> de_count a) r \<and>
       (\<forall>i j. i < j \<and> j < length r \<and> de_count (r ! i) = de_count (r ! j) \<longrightarrow>
          first_seen (tokens d) (entry_key (r ! i)) < first_seen (tokens d) (entry_key (r ! j)))"
proof -
  let ?r = "map (final_entry (tokens d)) (most_common (freq (dict_run (tokens d) (tokens d))))"
  have rk: "sorted_wrt (ranked_before (tokens d)) ?r"
    by (rule dictionary_ranked)
  then have "sorted_wrt (\<lambda>a b. de_count b \<le> de_count a) ?r"
    by (rule sorted_wrt_mono_rel [rotated]) (auto simp: ranked_before_def)
  moreover have "first_seen (tokens d) (entry_key (?r ! i)) < first_seen (tokens d) (entry_key (?r ! j))"
    if "i < j" "j < length ?r" "de_count (?r ! i) = de_count (?r ! j)" for i j
  proof -
    have "ranked_before (tokens d) (?r ! i) (?r ! j)"
      using rk that(1,2) by (simp only: sorted_wrt_iff_nth_less)
    then show ?thesis
      using that(3) by (simp add: ranked_before_def)
  qed
  ultimately show ?thesis
    by (simp only: build_dictionary_eq) blast
qed

text \<open>
  In "saw Cats , cat ran cat and Dog ." the keys are first seen in the order see, cat, run,
  dog; cat (count 3) moves to the front and the three keys of count 1 keep that order.
\<close>

theorem dictionary_order_witness:
  "\<exists>r. build_dictionary doc_words = Inr r \<and>
       sorted_wrt (\<lambda>a b. de_count b \<le> de_count a) r \<and>
       map de_lemma r = [''cat'', ''see'', ''run'', ''dog''] \<and>
       map de_count r = [3, 1, 1, 1] \<and>
       first_seen (tokens doc_words) (entry_key (r ! 1)) <
         first_seen (tokens doc_words) (entry_key (r ! 2)) \<and>
       first_seen (tokens doc_words) (entry_key (r ! 2)) <
         first_seen (tokens doc_words) (entry_key (r ! 3))"
proof -
  obtain r where r: "build_dictionary doc_words = Inr r"
    and s: "sorted_wrt (\<lambda>a b. de_count b \<le> de_count a) r"
    and t: "\<forall>i j. i < j \<and> j < length r \<and> de_count (r ! i) = de_count (r ! j) \<longrightarrow>
          first_seen (tokens doc_words) (entry_key (r ! i)) <
          first_seen (tokens doc_words) (entry_key (r ! j))"
    using dictionary_order [of doc_words] by blast
  have v: "r = projr (build_dictionary doc_words)"
    using r by simp
  have l: "map de_lemma r = [''cat'', ''see'', ''run'', ''dog'']" and c: "map de_count r = [3, 1, 1, 1]"
    unfolding v doc_words_result by simp_all
  have n: "length r = 4" "de_count (r ! 1) = 1" "de_count (r ! 2) = 1" "de_count (r ! 3) = 1"
    unfolding v doc_words_result by simp_all
  have "first_seen (tokens doc_words) (entry_key (r ! 1)) <
        first_seen (tokens doc_words) (entry_key (r ! 2))"
    using t [rule_format, of 1 2] n by simp
  moreover have "first_seen (tokens doc_words) (entry_key (r ! 2)) <
        first_seen (tokens doc_words) (entry_key (r ! 3))"
    using t [rule_format, of 2 3] n by simp
  ultimately show ?thesis
    using r s l c by (intro exI [of _ r]) simp
qed

subsection \<open>Counts and surface forms\<close>

text \<open>
  Claim C3. \<open>build_dictionary\<close> returns on every document. The keys (lemma, POS) of its
  entries are pairwise distinct and are exactly the keys (lowercased lemma or, when the
  lemma is missing or empty, lowercased text; POS) of the tokens whose POS is in
  \<open>INCLUDE_POS\<close>: a token with another POS yields no entry. For every entry, the POS is in
  \<open>INCLUDE_POS\<close>, the count is the number of tokens with that POS and that key, and
  \<open>surface_forms\<close> is the sorted list of the set of their lowercased texts.
\<close>

theorem dictionary_counts:
  "\<exists>r. build_dictionary d = Inr r \<and>
       distinct (map entry_key r) \<and>
       set (map entry_key r) = token_key ` {t \<in> set (tokens d). tok_pos t \<in> INCLUDE_POS} \<and>
       (\<forall>e \<in> set r.
          de_pos e \<in> INCLUDE_POS \<and>
          de_count e = int (length (key_tokens (tokens d) (entry_key e))) \<and>
          de_surface_forms e =
            sorted_list_of_set ((\<lambda>t. lower (tok_text t)) ` set (key_tokens (tokens d) (entry_key e))))"
proof -
  let ?toks = "tokens d"
  let ?fr = "freq (dict_run ?toks ?toks)"
  let ?r = "map (final_entry ?toks) (most_common ?fr)"
  have keys: "map entry_key ?r = map fst (most_common ?fr)"
    by (rule dictionary_keys)
  have d: "distinct (map entry_key ?r)"
    unfolding keys by (simp add: most_common_def distinct_sorted_desc freq_distinct)
  have s: "set (map entry_key ?r) = token_key ` {t \<in> set ?toks. tok_pos t \<in> INCLUDE_POS}"
    unfolding keys using freq_keys_set [of ?toks]
    by (simp add: most_common_def set_sorted_desc)
  have e: "de_pos e \<in> INCLUDE_POS \<and>
          de_count e = int (length (key_tokens ?toks (entry_key e))) \<and>
          de_surface_forms e =
            sorted_list_of_set ((\<lambda>t. lower (tok_text t)) ` set (key_tokens ?toks (entry_key e)))"
    if mem: "e \<in> set ?r" for e
  proof -
    obtain kc where kc0: "kc \<in> set ?fr" "e = final_entry ?toks kc"
      using mem unfolding most_common_def set_map set_sorted_desc by blast
    obtain k c where kc: "(k, c) \<in> set ?fr" and e: "e = final_entry ?toks (k, c)"
      using kc0 by (metis surj_pair)
    obtain t where t: "t \<in> set ?toks" "key_match k t"
      using freq_key_match [OF kc] by blast
    have "de_pos e \<in> INCLUDE_POS"
      using t(2) e by (auto simp: key_match_def token_key_def final_entry_def)
    moreover have "de_count e = int (length (key_tokens ?toks (entry_key e)))"
      using freq_item_count [OF kc] e by (simp add: entry_key_final) (simp add: final_entry_def)
    moreover have "de_surface_forms e =
        sorted_list_of_set ((\<lambda>t. lower (tok_text t)) ` set (key_tokens ?toks (entry_key e)))"
      using sorted_forms [of ?toks k] e by (simp add: entry_key_final) (simp add: final_entry_def)
    ultimately show ?thesis by blast
  qed
  show ?thesis
    using d s e by (simp only: build_dictionary_eq) blast
qed

text \<open>
  In "saw Cats , cat ran cat and Dog ." the key (cat, NOUN) has three tokens and the forms
  "cat" and "cats"; the third of them has an empty lemma and falls back to its text; the
  punctuation and the conjunction have no entry.
\<close>

theorem dictionary_counts_witness:
  "\<exists>r. build_dictionary doc_words = Inr r \<and>
       map entry_key r =
         [(''cat'', ''NOUN''), (''see'', ''VERB''), (''run'', ''VERB''), (''dog'', ''NOUN'')] \<and>
       map de_count r = [3, 1, 1, 1] \<and>
       map de_surface_forms r = [[''cat'', ''cats''], [''saw''], [''ran''], [''dog'']] \<and>
       distinct (map entry_key r) \<and>
       (\<exists>e. e \<in> set r \<and> entry_key e = (''cat'', ''NOUN'') \<and>
            de_count e = int (length (key_tokens (tokens doc_words) (entry_key e)))) \<and>
       length (key_tokens (tokens doc_words) (''cat'', ''NOUN'')) = 3"
proof -
  obtain r where r: "build_dictionary doc_words = Inr r"
    and d: "distinct (map entry_key r)"
    and e: "\<forall>e \<in> set r.
          de_pos e \<in> INCLUDE_POS \<and>
          de_count e = int (length (key_tokens (tokens doc_words) (entry_key e))) \<and>
          de_surface_forms e =
            sorted_list_of_set ((\<lambda>t. lower (tok_text t)) `
              set (key_tokens (tokens doc_words) (entry_key e)))"
    using dictionary_counts [of doc_words] by blast
  have v: "r = projr (build_dictionary doc_words)"
    using r by simp
  have k: "map entry_key r =
         [(''cat'', ''NOUN''), (''see'', ''VERB''), (''run'', ''VERB''), (''dog'', ''NOUN'')]"
    and c: "map de_count r = [3, 1, 1, 1]"
    and f: "map de_surface_forms r = [[''cat'', ''cats''], [''saw''], [''ran''], [''dog'']]"
    unfolding v doc_words_result by (simp_all add: entry_key_def)
  have m: "hd r \<in> set r" "entry_key (hd r) = (''cat'', ''NOUN'')"
    unfolding v doc_words_result by (simp_all add: entry_key_def)
  have h: "de_count (hd r) = int (length (key_tokens (tokens doc_words) (entry_key (hd r))))"
    using bspec [OF e m(1)] by (rule conjunct1 [OF conjunct2])
  have "de_count (hd r) = 3"
    unfolding v doc_words_result by simp
  then have n: "length (key_tokens (tokens doc_words) (''cat'', ''NOUN'')) = 3"
    using h by (simp only: m(2))
  have x: "\<exists>e. e \<in> set r \<and> entry_key e = (''cat'', ''NOUN'') \<and>
            de_count e = int (length (key_tokens (tokens doc_words) (entry_key e)))"
    using m h by (intro exI [of _ "hd r"]) simp
  show ?thesis
    using r k c f d x n by (intro exI [of _ r]) simp
qed

subsection \<open>The example of an entry\<close>

text \<open>
  Claim C7. On a document whose flat token list holds each object with one value (two
  positions with the same object hold the same token), \<open>build_dictionary\<close> returns, and the
  example of every entry is the context of the position at which the entry's key is first
  seen: the texts of the tokens at most 6 positions away from it, joined by single spaces.
  A token whose key already has an entry leaves all entries, and so every example, as they
  are.
\<close>

theorem example_first_occurrence:
  assumes "refs_consistent (tokens d)"
  shows "(\<exists>r. build_dictionary d = Inr r \<and>
            (\<forall>e \<in> set r. de_example e =
               context_window (tokens d) (first_seen (tokens d) (entry_key e)))) \<and>
         (\<forall>st t. dict_has (entries st) (token_key t) \<longrightarrow>
            entries (dict_step (tokens d) st t) = entries st)"
proof -
  let ?toks = "tokens d"
  let ?fr = "freq (dict_run ?toks ?toks)"
  let ?r = "map (final_entry ?toks) (most_common ?fr)"
  have "de_example e = context_window ?toks (first_seen ?toks (entry_key e))"
    if mem: "e \<in> set ?r" for e
  proof -
    obtain kc where kc0: "kc \<in> set ?fr" "e = final_entry ?toks kc"
      using mem unfolding most_common_def set_map set_sorted_desc by blast
    obtain k c where kc: "(k, c) \<in> set ?fr" and e: "e = final_entry ?toks (k, c)"
      using kc0 by (metis surj_pair)
    have "\<exists>t \<in> set ?toks. key_match k t"
      by (rule freq_key_match [OF kc])
    then have "extract_context ?toks (?toks ! first_seen ?toks k) 6 =
        context_window ?toks (first_seen ?toks k)"
      using assms by (rule context_first_seen)
    then show ?thesis
      using e by (simp add: entry_key_final) (simp add: final_entry_def)
  qed
  then show ?thesis
    using later_occurrence_keeps_entries by (simp only: build_dictionary_eq) blast
qed

text \<open>
  In "saw Cats , cat ran cat and Dog ." the key (dog, NOUN) is first seen at position 7, and
  its example starts at position 1; the example of (cat, NOUN) is the context of position 1,
  not of the later positions 3 and 5.
\<close>

theorem example_first_occurrence_witness:
  "refs_consistent (tokens doc_words) \<and>
   (\<exists>r. build_dictionary doc_words = Inr r \<and>
      map de_example r =
        [''saw Cats , cat ran cat and Dog'', ''saw Cats , cat ran cat and'',
         ''saw Cats , cat ran cat and Dog .'', ''Cats , cat ran cat and Dog .''] \<and>
      de_example (r ! 3) = context_window (tokens doc_words) 7 \<and>
      de_example (r ! 0) = context_window (tokens doc_words) 1) \<and>
   first_seen (tokens doc_words) (''dog'', ''NOUN'') = 7 \<and>
   first_seen (tokens doc_words) (''cat'', ''NOUN'') = 1"
proof -
  have c: "refs_consistent (tokens doc_words)"
    by (rule distinct_refs_consistent [OF doc_words_refs])
  obtain r where r: "build_dictionary doc_words = Inr r"
    and e: "\<forall>e \<in> set r. de_example e =
               context_window (tokens doc_words) (first_seen (tokens doc_words) (entry_key e))"
    using example_first_occurrence [OF c] by blast
  have v: "r = projr (build_dictionary doc_words)"
    using r by simp
  have x: "map de_example r =
        [''saw Cats , cat ran cat and Dog'', ''saw Cats , cat ran cat and'',
         ''saw Cats , cat ran cat and Dog .'', ''Cats , cat ran cat and Dog .'']"
    unfolding v doc_words_result by simp
  have m: "r ! 3 \<in> set r" "r ! 0 \<in> set r"
    "entry_key (r ! 3) = (''dog'', ''NOUN'')" "entry_key (r ! 0) = (''cat'', ''NOUN'')"
    unfolding v doc_words_result by (simp_all add: entry_key_def)
  have f: "first_seen (tokens doc_words) (''dog'', ''NOUN'') = 7"
    "first_seen (tokens doc_words) (''cat'', ''NOUN'') = 1"
    using doc_words_first_seen by simp_all
  have a: "de_example (r ! 3) = context_window (tokens doc_words) 7"
    using bspec [OF e m(1)] by (simp only: m(3) f(1))
  have b: "de_example (r ! 0) = context_window (tokens doc_words) 1"
    using bspec [OF e m(2)] by (simp only: m(4) f(2))
  have "\<exists>r. build_dictionary doc_words = Inr r \<and>
      map de_example r =
        [''saw Cats , cat ran cat and Dog'', ''saw Cats , cat ran cat and'',
         ''saw Cats , cat ran cat and Dog .'', ''Cats , cat ran cat and Dog .''] \<and>
      de_example (r ! 3) = context_window (tokens doc_words) 7 \<and>
      de_example (r ! 0) = context_window (tokens doc_words) 1"
    using r x a b by (intro exI [of _ r]) simp
  then show ?thesis
    using c f by simp
qed

section \<open>The statistics\<close>

subsection \<open>The loop over the tokens\<close>

lemma dict_get_keys: "k \<in> set (map fst d) \<Longrightarrow> \<exists>v. dict_get d k = Some v"
  by (cases "dict_get d k") (auto simp: dict_get_def map_of_eq_None_iff)

lemma stats_step_ok:
  assumes "map fst (lemma_counters st) = CONTENT_POS"
  shows "\<exists>st'. stats_step st t = Inr st' \<and>
           map fst (lemma_counters st') = CONTENT_POS \<and>
           word_count st' = word_count st + (if is_word t then 1 else 0) \<and>
           total_chars st' = total_chars st + (if is_word t then int (length (tok_text t)) else 0) \<and>
           all_lemmas st' =
             (if is_word t then counter_inc (lemma_or_text t) (all_lemmas st) else all_lemmas st)"
proof (cases "tok_pos t \<in> set CONTENT_POS")
  case True
  then obtain c where c: "dict_get (lemma_counters st) (tok_pos t) = Some c"
    using dict_get_keys [of "tok_pos t" "lemma_counters st"] assms by auto
  have w: "is_word t"
    using True by (auto simp: is_word_def CONTENT_POS_def)
  have "tok_pos t \<in> set (map fst (lemma_counters st))"
    using True assms by simp
  then show ?thesis
    using True c w assms
    by (simp add: stats_step_def Let_def is_word_def dict_set_keys)
next
  case False
  then show ?thesis
    using assms by (simp add: stats_step_def Let_def is_word_def)
qed

lemma stats_loop_ok:
  "map fst (lemma_counters st) = CONTENT_POS \<Longrightarrow>
   \<exists>st'. stats_loop st ts = Inr st' \<and>
         map fst (lemma_counters st') = CONTENT_POS \<and>
         word_count st' = word_count st + int (length (words_of ts)) \<and>
         total_chars st' = total_chars st + word_chars ts \<and>
         all_lemmas st' =
           foldl (\<lambda>c t. counter_inc (lemma_or_text t) c) (all_lemmas st) (words_of ts)"
proof (induction ts arbitrary: st)
  case Nil
  then show ?case by (simp add: words_of_def word_chars_def)
next
  case (Cons t ts)
  obtain st1 where s1: "stats_step st t = Inr st1"
    "map fst (lemma_counters st1) = CONTENT_POS"
    "word_count st1 = word_count st + (if is_word t then 1 else 0)"
    "total_chars st1 = total_chars st + (if is_word t then int (length (tok_text t)) else 0)"
    "all_lemmas st1 =
       (if is_word t then counter_inc (lemma_or_text t) (all_lemmas st) else all_lemmas st)"
    using stats_step_ok [OF Cons.prems, of t] by blast
  obtain st2 where s2: "stats_loop st1 ts = Inr st2"
    "map fst (lemma_counters st2) = CONTENT_POS"
    "word_count st2 = word_count st1 + int (length (words_of ts))"
    "total_chars st2 = total_chars st1 + word_chars ts"
    "all_lemmas st2 =
       foldl (\<lambda>c t. counter_inc (lemma_or_text t) c) (all_lemmas st1) (words_of ts)"
    using Cons.IH [OF s1(2)] by blast
  show ?case
    using s1 s2 by (simp add: words_of_def word_chars_def)
qed

lemma counter_inc_keys: "set (map fst (counter_inc k c)) = insert k (set (map fst c))"
  unfolding counter_inc_def by (simp only: dict_set_keys) auto

lemma counter_fold_keys:
  "set (map fst (foldl (\<lambda>c t. counter_inc (f t) c) c0 ts)) = set (map fst c0) \<union> f ` set ts"
proof (induction ts arbitrary: c0)
  case Nil
  show ?case by simp
next
  case (Cons t ts)
  have "set (map fst (foldl (\<lambda>c t. counter_inc (f t) c) (counter_inc (f t) c0) ts)) =
        set (map fst (counter_inc (f t) c0)) \<union> f ` set ts"
    by (rule Cons.IH)
  then show ?case
    by (simp only: foldl_Cons counter_inc_keys) auto
qed

lemma counter_fold_distinct:
  "distinct (map fst c0) \<Longrightarrow> distinct (map fst (foldl (\<lambda>c t. counter_inc (f t) c) c0 ts))"
  by (induction ts arbitrary: c0) (simp_all add: counter_inc_distinct)

lemma counter_fold_length:
  "int (length (foldl (\<lambda>c t. counter_inc (lemma_or_text t) c) [] (words_of ts))) = distinct_lemmas ts"
proof -
  let ?c = "foldl (\<lambda>c t. counter_inc (lemma_or_text t) c) [] (words_of ts)"
  have "distinct (map fst ?c)"
    by (rule counter_fold_distinct) simp
  then have "card (set (map fst ?c)) = length ?c"
    using distinct_card [of "map fst ?c"] by simp
  moreover have "set (map fst ?c) = set (map lemma_or_text (words_of ts))"
    using counter_fold_keys [of lemma_or_text "[]" "words_of ts"] by simp
  ultimately show ?thesis
    by (simp add: distinct_lemmas_def)
qed

lemma top_ok:
  "map fst (lemma_counters st) = CONTENT_POS \<Longrightarrow> pos \<in> set CONTENT_POS \<Longrightarrow>
   \<exists>l. top st top_n pos = Inr l"
  using dict_get_keys [of pos "lemma_counters st"] by (auto simp: top_def)

lemma empty_stats_inv: "map fst (lemma_counters empty_stats_state) = CONTENT_POS"
  by (simp add: empty_stats_state_def o_def)

lemma words_none: "length (words_of ts) = 0 \<longleftrightarrow> (\<forall>t \<in> set ts. tok_pos t \<in> {''PUNCT'', ''SYM''})"
  by (auto simp: words_of_def is_word_def filter_empty_conv)

subsection \<open>Ratios and the empty word list\<close>

text \<open>
  Claim C5. \<open>compute_statistics\<close> returns on every document: neither a division by zero
  nor a missing key stops it. \<open>total_words\<close> is the number of tokens whose POS is neither
  \<open>PUNCT\<close> nor \<open>SYM\<close>, \<open>unique_lemmas\<close> the number of their distinct lowercased lemmas,
  and \<open>total_words\<close> is 0 exactly when every token is punctuation or a symbol. When
  \<open>total_words\<close> is 0, \<open>vocabulary_richness\<close> and \<open>avg_word_length\<close> are the integer 0.
  Otherwise \<open>vocabulary_richness\<close> is \<open>round(unique_lemmas / total_words * 100, 2)\<close> and
  \<open>avg_word_length\<close> is \<open>round(c / total_words, 2)\<close>, \<open>c\<close> the sum of the lengths of the
  texts of the words. The float division, multiplication and rounding are the parameters
  \<open>ops\<close>: the statement holds for whatever they compute.
\<close>

theorem statistics_ratios:
  "\<exists>r. compute_statistics ops d top_n = Inr r \<and>
       total_words r = int (length (words_of (tokens d))) \<and>
       unique_lemmas r = distinct_lemmas (tokens d) \<and>
       (total_words r = 0 \<longleftrightarrow> (\<forall>t \<in> set (tokens d). tok_pos t \<in> {''PUNCT'', ''SYM''})) \<and>
       (total_words r = 0 \<longrightarrow>
          vocabulary_richness r = PyInt 0 \<and> avg_word_length r = PyInt 0) \<and>
       (total_words r \<noteq> 0 \<longrightarrow>
          vocabulary_richness r =
            PyFloat (round_nd ops (mul_int ops (truediv ops (unique_lemmas r) (total_words r)) 100) 2) \<and>
          avg_word_length r =
            PyFloat (round_nd ops (truediv ops (word_chars (tokens d)) (total_words r)) 2))"
proof -
  obtain st where st: "stats_loop empty_stats_state (tokens d) = Inr st"
    and inv: "map fst (lemma_counters st) = CONTENT_POS"
    and wc: "word_count st = int (length (words_of (tokens d)))"
    and tc: "total_chars st = word_chars (tokens d)"
    and al: "all_lemmas st =
       foldl (\<lambda>c t. counter_inc (lemma_or_text t) c) [] (words_of (tokens d))"
    using stats_loop_ok [OF empty_stats_inv, of "tokens d"]
    by (auto simp: empty_stats_state_def)
  have un: "int (length (all_lemmas st)) = distinct_lemmas (tokens d)"
    by (simp only: al counter_fold_length)
  obtain nouns adjs verbs advs propns where tops:
    "top st top_n ''NOUN'' = Inr nouns" "top st top_n ''ADJ'' = Inr adjs"
    "top st top_n ''VERB'' = Inr verbs" "top st top_n ''ADV'' = Inr advs"
    "top st top_n ''PROPN'' = Inr propns"
    using top_ok [OF inv, of "''NOUN''" top_n] top_ok [OF inv, of "''ADJ''" top_n]
      top_ok [OF inv, of "''VERB''" top_n] top_ok [OF inv, of "''ADV''" top_n]
      top_ok [OF inv, of "''PROPN''" top_n]
    by (auto simp: CONTENT_POS_def)
  show ?thesis
  proof (cases "word_count st = 0")
    case True
    then show ?thesis
      using st tops wc un tc words_none [of "tokens d"]
      by (simp add: compute_statistics_def py_bind_def Let_def richness_of_def avg_len_of_def)
  next
    case False
    then show ?thesis
      using st tops wc un tc words_none [of "tokens d"]
      by (simp add: compute_statistics_def py_bind_def Let_def richness_of_def avg_len_of_def
          py_truediv_def)
  qed
qed

text \<open>
  "saw Cats , cat ran cat and Dog ." has 7 words of 22 characters and 5 distinct lemmas; a
  document of a full stop and a plus sign has no word.
\<close>

theorem statistics_ratios_witness:
  "(\<exists>r. compute_statistics term_ops doc_words 2 = Inr r \<and>
        total_words r = 7 \<and> unique_lemmas r = 5 \<and> total_words r \<noteq> 0 \<and>
        vocabulary_richness r = PyFloat (Rounded (Times (Quot 5 7) 100) 2) \<and>
        avg_word_length r = PyFloat (Rounded (Quot 22 7) 2)) \<and>
   (\<exists>r. compute_statistics term_ops doc_punct 2 = Inr r \<and>
        total_words r = 0 \<and> unique_lemmas r = 0 \<and>
        vocabulary_richness r = PyInt 0 \<and> avg_word_length r = PyInt 0)"
proof -
  have w: "int (length (words_of (tokens doc_words))) = 7"
    and l: "distinct_lemmas (tokens doc_words) = 5"
    and c: "word_chars (tokens doc_words) = 22"
    by code_simp+
  have w0: "int (length (words_of (tokens doc_punct))) = 0"
    and l0: "distinct_lemmas (tokens doc_punct) = 0"
    by code_simp+
  have o: "round_nd term_ops = Rounded" "mul_int term_ops = Times" "truediv term_ops = Quot"
    by (simp_all add: term_ops_def)
  obtain r where r: "compute_statistics term_ops doc_words 2 = Inr r"
    and tw: "total_words r = int (length (words_of (tokens doc_words)))"
    and ul: "unique_lemmas r = distinct_lemmas (tokens doc_words)"
    and nz: "total_words r \<noteq> 0 \<longrightarrow>
          vocabulary_richness r =
            PyFloat (round_nd term_ops
              (mul_int term_ops (truediv term_ops (unique_lemmas r) (total_words r)) 100) 2) \<and>
          avg_word_length r =
            PyFloat (round_nd term_ops
              (truediv term_ops (word_chars (tokens doc_words)) (total_words r)) 2)"
    using statistics_ratios [of term_ops doc_words 2] by blast
  have a: "total_words r = 7" "unique_lemmas r = 5"
    using tw ul by (simp_all only: w l)
  have b: "vocabulary_richness r = PyFloat (Rounded (Times (Quot 5 7) 100) 2)"
    "avg_word_length r = PyFloat (Rounded (Quot 22 7) 2)"
    using nz by (simp_all add: a c o)
  have first: "\<exists>r. compute_statistics term_ops doc_words 2 = Inr r \<and>
        total_words r = 7 \<and> unique_lemmas r = 5 \<and> total_words r \<noteq> 0 \<and>
        vocabulary_richness r = PyFloat (Rounded (Times (Quot 5 7) 100) 2) \<and>
        avg_word_length r = PyFloat (Rounded (Quot 22 7) 2)"
    using r a b by (intro exI [of _ r]) simp
  obtain r0 where r0: "compute_statistics term_ops doc_punct 2 = Inr r0"
    and tw0: "total_words r0 = int (length (words_of (tokens doc_punct)))"
    and ul0: "unique_lemmas r0 = distinct_lemmas (tokens doc_punct)"
    and z: "total_words r0 = 0 \<longrightarrow>
          vocabulary_richness r0 = PyInt 0 \<and> avg_word_length r0 = PyInt 0"
    using statistics_ratios [of term_ops doc_punct 2] by blast
  have a0: "total_words r0 = 0" "unique_lemmas r0 = 0"
    using tw0 ul0 by (simp_all only: w0 l0)
  have b0: "vocabulary_richness r0 = PyInt 0" "avg_word_length r0 = PyInt 0"
    using z a0 by simp_all
  have second: "\<exists>r. compute_statistics term_ops doc_punct 2 = Inr r \<and>
        total_words r = 0 \<and> unique_lemmas r = 0 \<and>
        vocabulary_richness r = PyInt 0 \<and> avg_word_length r = PyInt 0"
    using r0 a0 b0 by (intro exI [of _ r0]) simp
  show ?thesis
    using first second by (rule conjI)
qed

section \<open>The adjective search\<close>

subsection \<open>The loop and the ranking\<close>

lemma startswith_take: "startswith s q \<longleftrightarrow> take (length q) s = q"
  by (induction s q rule: startswith.induct) auto

lemma prefix_matches_merged: "prefix_matches idx q = merged_entries idx q"
  by (simp add: prefix_matches_def merged_entries_def startswith_take)

lemma sorted_desc_sorted: "sorted_wrt (\<lambda>a b. f b \<le> f a) (sorted_desc f xs)"
proof -
  have "sorted (map f (sort_key f (rev xs)))"
    by (rule sorted_sort_key)
  then have "sorted_wrt (\<lambda>a b. f a \<le> f b) (sort_key f (rev xs))"
    by (simp only: sorted_map)
  then show ?thesis
    by (simp add: sorted_desc_def sorted_wrt_rev)
qed

lemma dedup_loop_take:
  "int (length result) < limit \<Longrightarrow>
   dedup_loop limit xs seen result = take (nat limit) (result @ first_per_adj seen xs)"
proof (induction xs arbitrary: seen result)
  case Nil
  then show ?case by simp
next
  case (Cons x xs)
  show ?case
  proof (cases "ai_adj x \<in> seen")
    case True
    then show ?thesis
      using Cons.prems Cons.IH [OF Cons.prems, of seen] by simp
  next
    case False
    show ?thesis
    proof (cases "limit \<le> int (length result) + 1")
      case True
      then have "nat limit = length result + 1"
        using Cons.prems by simp
      then show ?thesis
        using False True by simp
    next
      case stay: False
      then have "int (length (result @ [x])) < limit"
        by simp
      then show ?thesis
        using False stay Cons.IH [of "result @ [x]" "insert (ai_adj x) seen"] by simp
    qed
  qed
qed

lemma dedup_loop_Nil: "dedup_loop limit [] seen result = result"
  by simp

lemma first_per_adj_subset: "set (first_per_adj seen xs) \<subseteq> set xs"
  by (induction xs arbitrary: seen) auto

lemma first_per_adj_adjs: "ai_adj ` set (first_per_adj seen xs) = ai_adj ` set xs - seen"
  by (induction xs arbitrary: seen) auto

lemma first_per_adj_distinct: "distinct (map ai_adj (first_per_adj seen xs))"
proof (induction xs arbitrary: seen)
  case Nil
  show ?case by simp
next
  case (Cons x xs)
  have "ai_adj x \<notin> ai_adj ` set (first_per_adj (insert (ai_adj x) seen) xs)"
    by (simp only: first_per_adj_adjs) simp
  then show ?case
    using Cons.IH by simp
qed

lemma first_per_adj_sorted:
  "sorted_wrt P xs \<Longrightarrow> sorted_wrt P (first_per_adj seen xs)"
proof (induction xs arbitrary: seen)
  case Nil
  show ?case by simp
next
  case (Cons x xs)
  have "\<forall>y \<in> set (first_per_adj (insert (ai_adj x) seen) xs). P x y"
    using Cons.prems first_per_adj_subset [of "insert (ai_adj x) seen" xs] by auto
  then show ?case
    using Cons by simp
qed

lemma first_per_adj_max:
  assumes "sorted_wrt (\<lambda>a b. ai_count b \<le> ai_count a) xs"
    and "x \<in> set (first_per_adj seen xs)" and "y \<in> set xs" and "ai_adj y = ai_adj x"
  shows "ai_count y \<le> ai_count x"
  using assms
proof (induction xs arbitrary: seen)
  case Nil
  then show ?case by simp
next
  case (Cons z zs)
  have srt: "sorted_wrt (\<lambda>a b. ai_count b \<le> ai_count a) zs"
    and top: "\<forall>w \<in> set zs. ai_count w \<le> ai_count z"
    using Cons.prems(1) by simp_all
  show ?case
  proof (cases "ai_adj z \<in> seen")
    case True
    then have x: "x \<in> set (first_per_adj seen zs)"
      using Cons.prems(2) by simp
    then have "ai_adj x \<in> ai_adj ` set zs - seen"
      using first_per_adj_adjs [of seen zs] by blast
    then have "y \<noteq> z"
      using True Cons.prems(4) by auto
    then have "y \<in> set zs"
      using Cons.prems(3) by simp
    then show ?thesis
      using Cons.IH [OF srt x _ Cons.prems(4)] by simp
  next
    case False
    show ?thesis
    proof (cases "x = z")
      case True
      then show ?thesis
        using top Cons.prems(3) by auto
    next
      case nz: False
      then have x: "x \<in> set (first_per_adj (insert (ai_adj z) seen) zs)"
        using Cons.prems(2) False by simp
      then have "ai_adj x \<in> ai_adj ` set zs - insert (ai_adj z) seen"
        using first_per_adj_adjs [of "insert (ai_adj z) seen" zs] by blast
      then have "y \<noteq> z"
        using Cons.prems(4) by auto
      then have "y \<in> set zs"
        using Cons.prems(3) by simp
      then show ?thesis
        using Cons.IH [OF srt x _ Cons.prems(4)] by simp
    qed
  qed
qed

lemma ranked_dedup_first: "ranked_dedup xs (first_per_adj {} (sorted_desc ai_count xs))"
proof -
  let ?s = "sorted_desc ai_count xs"
  have s: "sorted_wrt (\<lambda>a b. ai_count b \<le> ai_count a) ?s"
    by (rule sorted_desc_sorted)
  have "set (first_per_adj {} ?s) \<subseteq> set xs"
    using first_per_adj_subset [of "{}" ?s] by (simp add: set_sorted_desc)
  moreover have "ai_adj ` set (first_per_adj {} ?s) = ai_adj ` set xs"
    by (simp add: first_per_adj_adjs set_sorted_desc)
  moreover have "distinct (map ai_adj (first_per_adj {} ?s))"
    by (rule first_per_adj_distinct)
  moreover have "\<forall>x \<in> set (first_per_adj {} ?s). \<forall>y \<in> set xs.
      ai_adj y = ai_adj x \<longrightarrow> ai_count y \<le> ai_count x"
    using first_per_adj_max [OF s] by (simp add: set_sorted_desc)
  moreover have "sorted_wrt (\<lambda>a b. ai_count b \<le> ai_count a) (first_per_adj {} ?s)"
    using s by (rule first_per_adj_sorted)
  ultimately show ?thesis
    unfolding ranked_dedup_def by blast
qed


lemma search_prefix:
  "dict_get idx (lower (strip query)) = None \<Longrightarrow> 1 \<le> limit \<Longrightarrow>
   search_adjectives_for_noun idx query limit =
     take (nat limit)
       (first_per_adj {} (sorted_desc ai_count (merged_entries idx (lower (strip query)))))"
  using dedup_loop_take [of "[]" limit]
  by (simp add: search_adjectives_for_noun_def prefix_matches_merged)




lemma merged_all: "merged_entries idx [] = concat (map snd idx)"
  by (simp add: merged_entries_def)

lemma ranked_dedup_Nil: "ranked_dedup xs r \<Longrightarrow> r = [] \<longleftrightarrow> xs = []"
  unfolding ranked_dedup_def by (metis image_is_empty set_empty)

subsection \<open>The lists of a built index\<close>

lemma dict_set_lists_nonempty:
  "list_all (\<lambda>p. snd p \<noteq> []) d \<Longrightarrow> v \<noteq> [] \<Longrightarrow>
   list_all (\<lambda>p. snd p \<noteq> []) (dict_set k v d)"
  by (induction d) auto

lemma dict_append_lists_nonempty:
  "list_all (\<lambda>p. snd p \<noteq> []) d \<Longrightarrow> list_all (\<lambda>p. snd p \<noteq> []) (dict_append k v d)"
  unfolding dict_append_def by (rule dict_set_lists_nonempty) simp_all

lemma built_index_lists_nonempty: "list_all (\<lambda>p. snd p \<noteq> []) (build_noun_adj_index st)"
proof -
  let ?f = "\<lambda>idx ((noun, adj), count).
       dict_append noun
         \<lparr>ai_adj = adj, ai_count = count,
          ai_examples = examples_of (pair_examples st) (noun, adj)\<rparr> idx"
  have inv: "list_all (\<lambda>p. snd p \<noteq> []) (foldl ?f [] (most_common (pair_counter st)))"
  proof (rule foldl_invariant [where P = "list_all (\<lambda>p. snd p \<noteq> [])"])
    show "list_all (\<lambda>p. snd p \<noteq> []) ([] :: (string, adj_item list) pydict)"
      by simp
  next
    fix s :: "(string, adj_item list) pydict" and x :: "(string \<times> string) \<times> int"
    assume inv: "list_all (\<lambda>p. snd p \<noteq> []) s"
    show "list_all (\<lambda>p. snd p \<noteq> []) (?f s x)"
      using dict_append_lists_nonempty [OF inv] by (simp add: case_prod_beta)
  qed
  have ne: "sorted_desc ai_count l \<noteq> []" if "l \<noteq> []" for l :: "adj_item list"
    using that length_sorted_desc [of ai_count l] by (cases "sorted_desc ai_count l") simp_all
  show ?thesis
    unfolding build_noun_adj_index_def using inv ne
    by (simp add: list_all_iff case_prod_beta)
qed

lemma extract_index_lists_nonempty:
  assumes "extract_noun_adj_pairs d = Inr c"
  shows "list_all (\<lambda>p. snd p \<noteq> []) (noun_adj_index c)"
proof -
  have "noun_adj_index c =
      build_noun_adj_index (window_pass (tokens d) (dep_pass (sents d) empty_state))"
    using assms by (auto simp: extract_noun_adj_pairs_def build_output_def)
  then show ?thesis
    using built_index_lists_nonempty by simp
qed

subsection \<open>Exact key, prefix matches, no match\<close>




subsection \<open>A query of white space\<close>

text \<open>
  Claim C10. Let \<open>idx\<close> be the noun index that \<open>extract_noun_adj_pairs\<close> returns on a
  document, and let it be not empty. For a query that trims to the empty string, the empty
  string being no key of \<open>idx\<close>, and a limit of at least 1: every noun is a prefix match,
  the result is the first \<open>limit\<close> items of a deduplicated ranking of all entries of the
  index, and the result is not empty.
\<close>

theorem blank_query_ranks_index:
  assumes "extract_noun_adj_pairs d = Inr c" and "idx = noun_adj_index c" and "idx \<noteq> []"
    and "strip query = []" and "dict_get idx [] = None" and "1 \<le> limit"
  shows "(\<forall>noun. startswith noun (lower (strip query))) \<and>
         (\<exists>r. ranked_dedup (concat (map snd idx)) r \<and>
              search_adjectives_for_noun idx query limit = take (nat limit) r) \<and>
         search_adjectives_for_noun idx query limit \<noteq> []"
proof -
  let ?r = "first_per_adj {} (sorted_desc ai_count (concat (map snd idx)))"
  have q: "lower (strip query) = []"
    using assms(4) by (simp add: lower_def)
  have none: "dict_get idx (lower (strip query)) = None"
    using assms(5) by (simp only: q)
  have res: "search_adjectives_for_noun idx query limit = take (nat limit) ?r"
    using search_prefix [OF none assms(6)] by (simp only: q merged_all)
  have rk: "ranked_dedup (concat (map snd idx)) ?r"
    by (rule ranked_dedup_first)
  have "list_all (\<lambda>p. snd p \<noteq> []) idx"
    using extract_index_lists_nonempty [OF assms(1)] by (simp add: assms(2))
  then have "concat (map snd idx) \<noteq> []"
    using assms(3) by (cases idx) simp_all
  then have "?r \<noteq> []"
    using ranked_dedup_Nil [OF rk] by simp
  then have ne: "search_adjectives_for_noun idx query limit \<noteq> []"
    using assms(6) by (simp add: res)
  have "\<forall>noun. startswith noun (lower (strip query))"
    by (simp add: q)
  moreover have "\<exists>r. ranked_dedup (concat (map snd idx)) r \<and>
              search_adjectives_for_noun idx query limit = take (nat limit) r"
    using rk res by (intro exI [of _ ?r]) simp
  ultimately show ?thesis
    using ne by (intro conjI)
qed

text \<open>
  The index of "red big red car" has the noun "car" with the adjectives "red" and "big";
  two blanks with the limit 1 give "red".
\<close>

theorem blank_query_ranks_index_witness:
  "(\<exists>c. extract_noun_adj_pairs doc_car = Inr c \<and>
        noun_adj_index c =
          [(''car'', [\<lparr>ai_adj = ''red'', ai_count = 1, ai_examples = [''red big car'']\<rparr>,
                      \<lparr>ai_adj = ''big'', ai_count = 1, ai_examples = [''big car'']\<rparr>])] \<and>
        (\<exists>r. ranked_dedup (concat (map snd (noun_adj_index c))) r \<and>
             search_adjectives_for_noun (noun_adj_index c) ''  '' 1 = take 1 r) \<and>
        search_adjectives_for_noun (noun_adj_index c) ''  '' 1 =
          [\<lparr>ai_adj = ''red'', ai_count = 1, ai_examples = [''red big car'']\<rparr>] \<and>
        search_adjectives_for_noun (noun_adj_index c) ''  '' 1 \<noteq> [])"
proof -
  let ?c = "build_output (window_pass (tokens doc_car) (dep_pass (sents doc_car) empty_state))"
  let ?idx = "[(''car'', [\<lparr>ai_adj = ''red'', ai_count = 1, ai_examples = [''red big car'']\<rparr>,
                      \<lparr>ai_adj = ''big'', ai_count = 1, ai_examples = [''big car'']\<rparr>])]"
  have e: "extract_noun_adj_pairs doc_car = Inr ?c"
    by (simp only: extract_noun_adj_pairs_def)
  have i: "noun_adj_index ?c = ?idx"
    by code_simp
  have ne: "?idx \<noteq> []"
    by simp
  have s: "strip ''  '' = []" and n: "dict_get ?idx [] = None" and l: "(1::int) \<le> 1"
    by code_simp+
  have t: "(\<exists>r. ranked_dedup (concat (map snd ?idx)) r \<and>
              search_adjectives_for_noun ?idx ''  '' 1 = take (nat 1) r) \<and>
           search_adjectives_for_noun ?idx ''  '' 1 \<noteq> []"
    using blank_query_ranks_index [OF e i [symmetric] ne s n l] by (rule conjunct2)
  have v: "search_adjectives_for_noun ?idx ''  '' 1 =
          [\<lparr>ai_adj = ''red'', ai_count = 1, ai_examples = [''red big car'']\<rparr>]"
    by code_simp
  have rest: "noun_adj_index ?c = ?idx \<and>
        (\<exists>r. ranked_dedup (concat (map snd (noun_adj_index ?c))) r \<and>
             search_adjectives_for_noun (noun_adj_index ?c) ''  '' 1 = take 1 r) \<and>
        search_adjectives_for_noun (noun_adj_index ?c) ''  '' 1 =
          [\<lparr>ai_adj = ''red'', ai_count = 1, ai_examples = [''red big car'']\<rparr>] \<and>
        search_adjectives_for_noun (noun_adj_index ?c) ''  '' 1 \<noteq> []"
    unfolding i using t v by simp
  show ?thesis
    using conjI [OF e rest] by (rule exI [of _ ?c])
qed

end
